theory Spec2Isabelle
  imports Main
begin

section \<open>The consent service of archmage-x (lib/services/consentService)\<close>

text \<open>
  A shallow embedding of the classes \<open>ConsentServicePartial\<close> and \<open>ConsentService\<close>.
  The service object and the browser facilities it writes to are one record that every
  operation takes and returns. Every operation is run to completion: the model does not
  interleave two operations at their \<open>await\<close> points. JavaScript numbers are
  unbounded integers here, and a value of type \<open>any\<close> is an opaque string that counts
  as truthy when present (\<open>Some\<close>) and as \<open>undefined\<close> when absent (\<open>None\<close>).
\<close>

subsection \<open>Data model\<close>

datatype Permission = ACCOUNT

datatype ConsentType =
    UNLOCK
  | REQUEST_PERMISSION
  | TRANSACTION
  | SIGN_MSG
  | SIGN_TYPED_DATA
  | WATCH_ASSET
  | ADD_NETWORK
  | SWITCH_NETWORK

datatype NetworkKind = EVM | APTOS | OTHER_KIND string

datatype TokenVisibility = UNSPECIFIED | SHOW | HIDE

type_synonym val = string

text \<open>\<open>accountId: number | number[]\<close>\<close>

datatype AccountId = Single int | Multiple "int list"

text \<open>
  \<open>payload: any\<close>: an object read through the properties that the payload types name
  (\<open>RequestPermissionPayload\<close>, \<open>SignMsgPayload\<close>, \<open>SignTypedDataPayload\<close>,
  \<open>WatchAssetPayload\<close>, \<open>AddNetworkPayload\<close>); a property that is not there reads as
  \<open>undefined\<close>. \<open>tx\<close> stands for everything a transaction payload holds.
\<close>

record Payload =
  permissions :: "Permission list option"
  message :: "val option"
  signature :: "val option"
  typedData :: "val option"
  token :: "val option"
  info :: "val option"
  balance :: "val option"
  networkKind :: "NetworkKind option"
  chainId :: "val option"
  tx :: "val option"

text \<open>\<open>Omit<ConsentRequest, 'id'>\<close> and \<open>ConsentRequest\<close>\<close>

record RequestWithoutId =
  networkId :: "int option"
  accountId :: "AccountId option"
  type :: ConsentType
  origin :: "string option"
  payload :: Payload

record ConsentRequest = RequestWithoutId +
  id' :: int

record Context =
  fromInternal :: bool

record INetwork =
  network_id :: int
  kind :: NetworkKind

record IChainAccount =
  account_id :: int
  masterId :: int

text \<open>The enumeration \<open>WalletType\<close> is declared in \<open>~lib/wallet\<close>; its values are opaque here.\<close>

type_synonym WalletType = string

record IWallet =
  wallet_id :: int
  wallet_type :: WalletType

record IToken =
  token_id :: nat
  token_account :: IChainAccount
  token_address :: "val option"
  visible :: TokenVisibility
  token_info :: "val option \<times> val option"

text \<open>
  Thrown values. \<open>UserRejectedRequest\<close> is \<open>ethErrors.provider.userRejectedRequest()\<close>,
  \<open>InvalidRequest m\<close> is \<open>ethErrors.rpc.invalidRequest(m)\<close>, \<open>AssertionError\<close> a failed
  \<open>assert\<close>, \<open>TypeError\<close> the error of a property read on \<open>undefined\<close> or \<open>null\<close> and
  of \<open>in\<close> applied to a primitive, \<open>NotFound i\<close> the \<open>Error\<close> that
  \<open>processRequestPost\<close> throws. A collaborator can throw any value: \<open>Thrown s\<close> is an
  object, an \<open>Error\<close> or not, whose \<open>toString()\<close> gives \<open>s\<close>; \<open>ThrownPrimitive s b\<close> is
  a string, number, boolean or bigint with the text \<open>s\<close>, truthy when \<open>b\<close>; and
  \<open>ThrownNullish\<close> is \<open>null\<close> or \<open>undefined\<close>.
\<close>

datatype error =
    UserRejectedRequest
  | InvalidRequest string
  | AssertionError
  | TypeError
  | NotFound int
  | Thrown string
  | ThrownPrimitive string bool
  | ThrownNullish

text \<open>
  \<open>err.toString()\<close>, \<open>None\<close> where the call itself throws: \<open>null\<close> and \<open>undefined\<close>
  have no properties. The texts abridge what the error classes of \<open>eth-rpc-errors\<close> and
  of Node give; the text of the user-rejected error holds its message,
  \<open>User rejected the request.\<close>
\<close>

fun toString :: "error \<Rightarrow> string option" where
  "toString UserRejectedRequest = Some ''{code: 4001, message: User rejected the request.}''"
| "toString (InvalidRequest m) = Some (''{code: -32600, message: '' @ m @ ''}'')"
| "toString AssertionError = Some ''AssertionError [ERR_ASSERTION]''"
| "toString TypeError = Some ''TypeError''"
| "toString (NotFound i) = Some ''Error: consent request not found''"
| "toString (Thrown s) = Some s"
| "toString (ThrownPrimitive s b) = Some s"
| "toString ThrownNullish = None"

text \<open>Whether a thrown value passes \<open>if (rejectData)\<close>, and whether it is an object, to
  which \<open>in\<close> can be applied.\<close>

fun truthy :: "error \<Rightarrow> bool" where
  "truthy (ThrownPrimitive s b) = b"
| "truthy ThrownNullish = False"
| "truthy _ = True"

fun isObject :: "error \<Rightarrow> bool" where
  "isObject (ThrownPrimitive s b) = False"
| "isObject ThrownNullish = False"
| "isObject _ = True"

text \<open>\<open>String.prototype.includes\<close>\<close>

fun includes_str :: "string \<Rightarrow> string \<Rightarrow> bool" where
  "includes_str [] pat = (pat = [])"
| "includes_str (c # cs) pat = (take (length pat) (c # cs) = pat \<or> includes_str cs pat)"

text \<open>What \<open>processRequestIntermediate\<close> returns: \<open>undefined\<close>, a value that a
  collaborator gave, or the object \<open>{ hash: txHash }\<close>.\<close>

datatype response = NoResponse | Response val | HashOnly "val option"

text \<open>What a call of \<open>resolve\<close> or \<open>reject\<close> of a Completion Handle passes on.\<close>

datatype settlement = Resolved response | Rejected error

text \<open>What \<open>requestConsent\<close> does at its end: it returns \<open>undefined\<close>, or it awaits the
  promise whose callbacks it stored under the given id.\<close>

datatype returned = Undefined | Awaiting int

text \<open>
  The state. \<open>consentRequests\<close>, \<open>waits\<close> and \<open>nextId\<close> are the fields of the class;
  \<open>waits\<close> lists the keys of the \<open>Map\<close> in insertion order, the value under a key
  being the \<open>[resolve, reject]\<close> pair of the promise made for that id. \<open>settled\<close>
  records every call of such a callback, with the key it was stored under. \<open>store\<close>
  is the value of \<open>SESSION_STORE\<close> under \<open>StoreKey.CONSENT_REQUESTS\<close>, \<open>badge\<close> the
  badge text (\<open>None\<close> for the empty text), \<open>notifications\<close> the calls of
  \<open>EXTENSION.showNotification\<close>, \<open>windows\<close> the number of \<open>createWindow\<close> calls and
  \<open>unlockListeners\<close> the requests for which a window-removal listener is installed.
\<close>

record state =
  consentRequests :: "ConsentRequest list"
  waits :: "int list"
  nextId :: int
  settled :: "(int \<times> settlement) list"
  store :: "ConsentRequest list option"
  badge :: "nat option"
  notifications :: "(string \<times> string) list"
  windows :: nat
  unlockListeners :: "ConsentRequest list"
  tokens :: "IToken list"

text \<open>
  The collaborators that are imported from other modules, as parameters:
  \<open>canWalletSign\<close>, \<open>WALLET_SERVICE\<close>, \<open>NETWORK_SERVICE\<close>, \<open>getProvider\<close> and the
  provider it returns, \<open>formatTxPayload\<close>, \<open>CONNECTED_SITE_SERVICE\<close>, the transaction
  services and \<open>setActiveNetwork\<close>. A call that can throw returns a sum. \<open>pollTransaction\<close>
  is the whole \<open>try\<close> block around \<open>poll\<close>, whose errors the source swallows.
\<close>

type_synonym Provider = nat

record TxPayload =
  txParams :: "val option"
  populatedParams :: "val option"
  signedTx :: "val option"
  txHash :: "val option"

record collab =
  canWalletSign :: "WalletType \<Rightarrow> bool"
  getChainAccount :: "int \<Rightarrow> IChainAccount option"
  getWallet :: "int \<Rightarrow> IWallet option"
  getNetwork :: "int \<Rightarrow> INetwork option"
  getProvider :: "INetwork \<Rightarrow> error + Provider"
  getChainAccounts :: "int list \<Rightarrow> IChainAccount list"
  formatTxPayload :: "INetwork option \<Rightarrow> Payload \<Rightarrow> error + TxPayload"
  signTransaction :: "Provider \<Rightarrow> IChainAccount option \<Rightarrow> val option \<Rightarrow> error + val"
  sendTransaction :: "Provider \<Rightarrow> val \<Rightarrow> error + val"
  pollTransaction :: "Provider option \<Rightarrow> val option \<Rightarrow> val option"
  addPendingTx :: "NetworkKind \<Rightarrow> IChainAccount option \<Rightarrow> TxPayload \<Rightarrow> val option \<Rightarrow> error + unit"
  signMessage :: "Provider \<Rightarrow> IChainAccount option \<Rightarrow> val option \<Rightarrow> error + val"
  signTypedData :: "Provider \<Rightarrow> IChainAccount option \<Rightarrow> val option \<Rightarrow> error + val"
  connectSiteWithReplace :: "IChainAccount list option \<Rightarrow> string option \<Rightarrow> error + unit"
  addNetwork :: "NetworkKind option \<Rightarrow> val option \<Rightarrow> val option \<Rightarrow> error + unit"
  setActiveNetwork :: "int \<Rightarrow> error + unit"

subsection \<open>The constructor and the queue\<close>

text \<open>\<open>setBadge\<close>\<close>

definition setBadge :: "state \<Rightarrow> state" where
  "setBadge s =
     (if consentRequests s = [] then s\<lparr>badge := None\<rparr>
      else s\<lparr>badge := Some (length (consentRequests s))\<rparr>)"

text \<open>\<open>.reduce((maxId, id) => Math.max(maxId, id))\<close> on a non-empty array: the first
  element starts the accumulator.\<close>

definition reduce_max :: "int list \<Rightarrow> int" where
  "reduce_max xs = foldl max (hd xs) (tl xs)"

text \<open>
  The constructor: the field initialisers, then the body of \<open>initPromise\<close>. It runs
  against whatever the store holds, so a restart of the service worker is
  \<open>constructor\<close> applied to the state the last run left. The new service object has
  called no callback and has no listener installed: \<open>settled\<close> and \<open>unlockListeners\<close>
  start empty with it.
\<close>

definition constructor :: "state \<Rightarrow> state" where
  "constructor s =
     (let s0 = s\<lparr>consentRequests := [], waits := [], nextId := 0, settled := [],
                 unlockListeners := []\<rparr>
      in case store s of
           None \<Rightarrow> s0\<lparr>store := Some []\<rparr>
         | Some reqs \<Rightarrow>
             if reqs = [] then s0
             else setBadge (s0\<lparr>consentRequests := reqs,
                               nextId := reduce_max (map id' reqs) + 1\<rparr>))"

text \<open>A browser in which nothing has happened yet, holding \<open>p\<close> in the session store.\<close>

definition browser :: "ConsentRequest list option \<Rightarrow> state" where
  "browser p = \<lparr>consentRequests = [], waits = [], nextId = 0, settled = [], store = p,
     badge = None, notifications = [], windows = 0, unlockListeners = [], tokens = []\<rparr>"

definition init :: "ConsentRequest list option \<Rightarrow> state" where
  "init p = constructor (browser p)"

text \<open>\<open>getRequests\<close>\<close>

definition getRequests :: "state \<Rightarrow> ConsentRequest list" where
  "getRequests s = consentRequests s"

text \<open>
  The loop of \<open>addRequest\<close>, \<open>for (let i = length - 1; i >= 0; --i)\<close>: the second
  argument is \<open>i + 1\<close>, the result the value of \<open>index\<close> after the loop.
\<close>

fun addRequest_loop :: "ConsentRequest list \<Rightarrow> nat \<Rightarrow> ConsentType \<Rightarrow> nat" where
  "addRequest_loop reqs 0 t = 0"
| "addRequest_loop reqs (Suc i) t =
     (if type (reqs ! i) = t then i + 1 else addRequest_loop reqs i t)"

definition addRequest :: "ConsentRequest \<Rightarrow> state \<Rightarrow> state" where
  "addRequest request s =
     (let reqs = consentRequests s;
          index = (if reqs \<noteq> [] then addRequest_loop reqs (length reqs) (type request) else 0);
          reqs' = (if index \<noteq> 0 then take index reqs @ request # drop index reqs
                   else reqs @ [request])
      in s\<lparr>consentRequests := reqs', store := Some reqs'\<rparr>)"

text \<open>\<open>Map.prototype.set\<close> and \<open>Map.prototype.delete\<close> on the keys.\<close>

definition waits_set :: "int \<Rightarrow> int list \<Rightarrow> int list" where
  "waits_set k ws = (if k \<in> set ws then ws else ws @ [k])"

definition waits_delete :: "int \<Rightarrow> int list \<Rightarrow> int list" where
  "waits_delete k ws = filter (\<lambda>j. j \<noteq> k) ws"

subsection \<open>\<open>requestConsent\<close>\<close>

text \<open>The \<open>switch\<close> at the head of \<open>requestConsent\<close>: the check of the wallet's
  ability to sign. An \<open>accountId\<close> that is absent finds no account, which fails the
  \<open>assert\<close> on it.\<close>

definition admission :: "collab \<Rightarrow> RequestWithoutId \<Rightarrow> error + unit" where
  "admission c request =
     (if type request = TRANSACTION \<or> type request = SIGN_MSG \<or> type request = SIGN_TYPED_DATA
      then (case accountId request of
              Some (Multiple _) \<Rightarrow> Inl AssertionError
            | None \<Rightarrow> Inl AssertionError
            | Some (Single a) \<Rightarrow>
                (case getChainAccount c a of
                   None \<Rightarrow> Inl AssertionError
                 | Some account \<Rightarrow>
                     (case getWallet c (masterId account) of
                        None \<Rightarrow> Inl AssertionError
                      | Some wallet \<Rightarrow>
                          if \<not> canWalletSign c (wallet_type wallet) then Inl UserRejectedRequest
                          else Inr ())))
      else Inr ())"

definition with_id :: "RequestWithoutId \<Rightarrow> int \<Rightarrow> ConsentRequest" where
  "with_id request n =
     \<lparr>networkId = networkId request, accountId = accountId request, type = type request,
      origin = origin request, payload = payload request, id' = n\<rparr>"

definition openPopup :: "RequestWithoutId \<Rightarrow> ConsentRequest \<Rightarrow> Context option \<Rightarrow> state \<Rightarrow> state" where
  "openPopup request req ctx s =
     (case ctx of
        None \<Rightarrow> s
      | Some cx \<Rightarrow>
          if \<not> fromInternal cx then
            (let s1 = s\<lparr>windows := windows s + 1\<rparr>
             in if type request = UNLOCK
                then s1\<lparr>unlockListeners := unlockListeners s1 @ [req]\<rparr>
                else s1)
          else s)"

definition requestConsent ::
  "collab \<Rightarrow> RequestWithoutId \<Rightarrow> Context option \<Rightarrow> bool \<Rightarrow> state \<Rightarrow> (error + returned) \<times> state" where
  "requestConsent c request ctx waitCompleted s =
     (case admission c request of
        Inl err \<Rightarrow> (Inl err, s)
      | Inr _ \<Rightarrow>
          (let req = with_id request (nextId s);
               s1 = s\<lparr>nextId := nextId s + 1\<rparr>;
               s2 = addRequest req s1;
               s3 = (if waitCompleted then s2\<lparr>waits := waits_set (id' req) (waits s2)\<rparr> else s2);
               s4 = setBadge s3;
               s5 = openPopup request req ctx s4
           in (Inr (if waitCompleted then Awaiting (id' req) else Undefined), s5)))"

subsection \<open>\<open>clearRequests\<close>\<close>

text \<open>The loop over \<open>this.waits\<close>: the keys in insertion order, the set of removed ids,
  and the state.\<close>

fun clearRequests_loop :: "int list \<Rightarrow> int list \<Rightarrow> state \<Rightarrow> state" where
  "clearRequests_loop [] removedSet s = s"
| "clearRequests_loop (k # ks) removedSet s =
     (if k \<in> set removedSet
      then clearRequests_loop ks removedSet
             (s\<lparr>settled := settled s @ [(k, Rejected UserRejectedRequest)],
                waits := waits_delete k (waits s)\<rparr>)
      else clearRequests_loop ks removedSet s)"

definition clearRequests :: "ConsentType option \<Rightarrow> state \<Rightarrow> state" where
  "clearRequests t s =
     (let removed = (case t of None \<Rightarrow> consentRequests s
                     | Some ty \<Rightarrow> filter (\<lambda>req. type req = ty) (consentRequests s));
          removedSet = map id' removed;
          s1 = s\<lparr>consentRequests := filter (\<lambda>req. id' req \<notin> set removedSet) (consentRequests s)\<rparr>;
          s2 = clearRequests_loop (waits s1) removedSet s1;
          s3 = s2\<lparr>store := Some (consentRequests s2)\<rparr>
      in setBadge s3)"

subsection \<open>The token service\<close>

text \<open>
  Modelled from the spec: \<open>TOKEN_SERVICE\<close> (\<open>getToken\<close>, \<open>setTokenVisibility\<close>,
  \<open>addToken\<close>) is imported from \<open>~lib/services/token\<close>, which is not among the sources.
  The specification says of it: look up the existing token entry for the account; flip
  visibility to shown; if absent, create it; and a token that the dispatch created is
  found visible by the next dispatch. So the table is a list of entries, an entry is
  found by its account and token, and a new entry is shown and gets an unused id.
\<close>

definition getToken :: "IToken list \<Rightarrow> IChainAccount \<Rightarrow> val option \<Rightarrow> IToken option" where
  "getToken ts account tok =
     find (\<lambda>e. token_account e = account \<and> token_address e = tok) ts"

definition setTokenVisibility :: "IToken list \<Rightarrow> nat \<Rightarrow> TokenVisibility \<Rightarrow> IToken list" where
  "setTokenVisibility ts i v = map (\<lambda>e. if token_id e = i then e\<lparr>visible := v\<rparr> else e) ts"

definition addToken ::
  "IToken list \<Rightarrow> IChainAccount \<Rightarrow> val option \<Rightarrow> val option \<times> val option \<Rightarrow> IToken list" where
  "addToken ts account tok inf0 =
     ts @ [\<lparr>token_id = Suc (foldr max (map token_id ts) 0), token_account = account,
            token_address = tok, visible = SHOW, token_info = inf0\<rparr>]"

subsection \<open>\<open>processRequest\<close>\<close>

text \<open>
  The head that \<open>processRequestSignTx\<close> and \<open>processRequestIntermediate\<close> share: the
  network and its provider when \<open>networkId\<close> is there, the accounts and the first of
  them when \<open>accountId\<close> is there.
\<close>

record resolved =
  network :: "INetwork option"
  provider :: "Provider option"
  accounts :: "IChainAccount list option"
  account :: "IChainAccount option"

definition resolveNetwork :: "collab \<Rightarrow> ConsentRequest \<Rightarrow> error + INetwork option \<times> Provider option" where
  "resolveNetwork c req =
     (case networkId req of
        None \<Rightarrow> Inr (None, None)
      | Some n \<Rightarrow>
          (case getNetwork c n of
             None \<Rightarrow> Inl AssertionError
           | Some nw \<Rightarrow>
               (case getProvider c nw of
                  Inl err \<Rightarrow> Inl err
                | Inr p \<Rightarrow> Inr (Some nw, Some p))))"

definition resolveRequest :: "collab \<Rightarrow> ConsentRequest \<Rightarrow> error + resolved" where
  "resolveRequest c req =
     (case resolveNetwork c req of
        Inl err \<Rightarrow> Inl err
      | Inr (nw, p) \<Rightarrow>
          (case accountId req of
             None \<Rightarrow> Inr \<lparr>network = nw, provider = p, accounts = None, account = None\<rparr>
           | Some a \<Rightarrow>
               (let accs = getChainAccounts c (case a of Single i \<Rightarrow> [i] | Multiple ids \<Rightarrow> ids)
                in if accs = [] then Inl AssertionError
                   else Inr \<lparr>network = nw, provider = p, accounts = Some accs,
                             account = Some (hd accs)\<rparr>)))"

text \<open>\<open>processRequestSignTx\<close>; the result is the pair \<open>(signedTx, txHash)\<close>.\<close>

definition processRequestSignTx :: "collab \<Rightarrow> ConsentRequest \<Rightarrow> error + val option \<times> val option" where
  "processRequestSignTx c req =
     (case resolveRequest c req of
        Inl err \<Rightarrow> Inl err
      | Inr r \<Rightarrow>
          (case formatTxPayload c (network r) (payload req) of
             Inl err \<Rightarrow> Inl err
           | Inr pl \<Rightarrow>
               if signedTx pl \<noteq> None \<or> txHash pl \<noteq> None then
                 (case network r of
                    None \<Rightarrow> Inl TypeError
                  | Some nw \<Rightarrow>
                      if kind nw = EVM then Inr (signedTx pl, txHash pl)
                      else Inl AssertionError)
               else
                 (case provider r of
                    None \<Rightarrow> Inl TypeError
                  | Some p \<Rightarrow>
                      (case signTransaction c p (account r) (txParams pl) of
                         Inl err \<Rightarrow> Inl err
                       | Inr sig \<Rightarrow> Inr (Some sig, txHash pl)))))"

text \<open>The private method \<open>requestPermission\<close>: the loop over \<open>payload.permissions\<close>.\<close>

fun requestPermission ::
  "collab \<Rightarrow> IChainAccount list option \<Rightarrow> string option \<Rightarrow> Permission list \<Rightarrow> error + unit" where
  "requestPermission c accs orig [] = Inr ()"
| "requestPermission c accs orig (ACCOUNT # ps) =
     (case connectSiteWithReplace c accs orig of
        Inl err \<Rightarrow> Inl err
      | Inr _ \<Rightarrow> requestPermission c accs orig ps)"

text \<open>The case \<open>ConsentType.TRANSACTION\<close> of \<open>processRequestIntermediate\<close>.\<close>

definition dispatchTransaction ::
  "collab \<Rightarrow> ConsentRequest \<Rightarrow> resolved \<Rightarrow> val option \<Rightarrow> val option \<Rightarrow> error + response" where
  "dispatchTransaction c req r signed hash =
     (case formatTxPayload c (network r) (payload req) of
        Inl err \<Rightarrow> Inl err
      | Inr pl \<Rightarrow>
          (case (case signed of
                   Some stx \<Rightarrow>
                     (case provider r of
                        None \<Rightarrow> Inl TypeError
                      | Some p \<Rightarrow>
                          (case sendTransaction c p stx of
                             Inl err \<Rightarrow> Inl err
                           | Inr resp \<Rightarrow> Inr (Some resp)))
                 | None \<Rightarrow>
                     (case network r of
                        None \<Rightarrow> Inl TypeError
                      | Some nw \<Rightarrow>
                          if kind nw = EVM then Inr (pollTransaction c (provider r) hash)
                          else Inl AssertionError)) of
             Inl err \<Rightarrow> Inl err
           | Inr txResponse \<Rightarrow>
               (case network r of
                  None \<Rightarrow> Inl TypeError
                | Some nw \<Rightarrow>
                    (case (if kind nw = EVM then
                             (if txResponse \<noteq> None
                              then addPendingTx c EVM (account r) pl txResponse
                              else Inr ())
                           else if kind nw = APTOS
                           then addPendingTx c APTOS (account r) pl txResponse
                           else Inr ()) of
                       Inl err \<Rightarrow> Inl err
                     | Inr _ \<Rightarrow>
                         (case txResponse of
                            Some resp \<Rightarrow> Inr (Response resp)
                          | None \<Rightarrow>
                              if kind nw = EVM then Inr (HashOnly hash)
                              else Inl AssertionError)))))"

text \<open>The case \<open>ConsentType.WATCH_ASSET\<close>. Without an account there is nothing to look
  a token up for: a \<open>TypeError\<close>.\<close>

definition dispatchWatchAsset :: "ConsentRequest \<Rightarrow> resolved \<Rightarrow> state \<Rightarrow> (error + response) \<times> state" where
  "dispatchWatchAsset req r s =
     (case account r of
        None \<Rightarrow> (Inl TypeError, s)
      | Some acc \<Rightarrow>
          (case getToken (tokens s) acc (token (payload req)) of
             Some existing \<Rightarrow>
               if visible existing = SHOW
               then (Inl (InvalidRequest ''Token already exists''), s)
               else (Inr NoResponse,
                     s\<lparr>tokens := setTokenVisibility (tokens s) (token_id existing) SHOW\<rparr>)
           | None \<Rightarrow>
               (Inr NoResponse,
                s\<lparr>tokens := addToken (tokens s) acc (token (payload req))
                               (info (payload req), balance (payload req))\<rparr>)))"

definition unit_response :: "error + unit \<Rightarrow> error + response" where
  "unit_response x = (case x of Inl err \<Rightarrow> Inl err | Inr _ \<Rightarrow> Inr NoResponse)"

definition val_response :: "error + val \<Rightarrow> error + response" where
  "val_response x = (case x of Inl err \<Rightarrow> Inl err | Inr v \<Rightarrow> Inr (Response v))"

text \<open>\<open>processRequestIntermediate\<close>, the dispatch on the type of the approved request.\<close>

definition processRequestIntermediate ::
  "collab \<Rightarrow> ConsentRequest \<Rightarrow> val option \<Rightarrow> val option \<Rightarrow> state \<Rightarrow> (error + response) \<times> state" where
  "processRequestIntermediate c req signed hash s =
     (if type req = UNLOCK then (Inr NoResponse, s)
      else
        (case resolveRequest c req of
           Inl err \<Rightarrow> (Inl err, s)
         | Inr r \<Rightarrow>
             (case type req of
                UNLOCK \<Rightarrow> (Inr NoResponse, s)
              | REQUEST_PERMISSION \<Rightarrow>
                  (case permissions (payload req) of
                     None \<Rightarrow> (Inl TypeError, s)
                   | Some ps \<Rightarrow>
                       (unit_response (requestPermission c (accounts r) (origin req) ps), s))
              | TRANSACTION \<Rightarrow> (dispatchTransaction c req r signed hash, s)
              | SIGN_MSG \<Rightarrow>
                  (case signature (payload req) of
                     None \<Rightarrow>
                       (case provider r of
                          None \<Rightarrow> (Inl TypeError, s)
                        | Some p \<Rightarrow>
                            (val_response (signMessage c p (account r) (message (payload req))), s))
                   | Some sig \<Rightarrow> (Inr (Response sig), s))
              | SIGN_TYPED_DATA \<Rightarrow>
                  (case signature (payload req) of
                     None \<Rightarrow>
                       (case provider r of
                          None \<Rightarrow> (Inl TypeError, s)
                        | Some p \<Rightarrow>
                            (val_response (signTypedData c p (account r) (typedData (payload req))), s))
                   | Some sig \<Rightarrow> (Inr (Response sig), s))
              | WATCH_ASSET \<Rightarrow> dispatchWatchAsset req r s
              | ADD_NETWORK \<Rightarrow>
                  (unit_response (addNetwork c (networkKind (payload req)) (chainId (payload req))
                     (info (payload req))), s)
              | SWITCH_NETWORK \<Rightarrow>
                  (case network r of
                     None \<Rightarrow> (Inl TypeError, s)
                   | Some nw \<Rightarrow> (unit_response (setActiveNetwork c (network_id nw)), s)))))"

text \<open>\<open>Array.prototype.findIndex\<close>, \<open>None\<close> for \<open>-1\<close>.\<close>

fun findIndex :: "('a \<Rightarrow> bool) \<Rightarrow> 'a list \<Rightarrow> nat option" where
  "findIndex P [] = None"
| "findIndex P (x # xs) =
     (if P x then Some 0 else (case findIndex P xs of None \<Rightarrow> None | Some i \<Rightarrow> Some (Suc i)))"

text \<open>
  \<open>processRequestPost\<close>. \<open>rejectData\<close> is \<open>None\<close> when \<open>processRequest\<close> passes the
  \<open>undefined\<close> of its unassigned variable, and the thrown value otherwise. A truthy
  \<open>rejectData\<close> is tested with \<open>'message' in rejectData\<close>, which throws a \<open>TypeError\<close>
  on a primitive: that is after \<open>waits.delete\<close> and before \<open>reject\<close> and \<open>splice\<close>. A
  falsy \<open>rejectData\<close> takes the \<open>else\<close> branch, which calls \<open>resolve\<close>.
\<close>

definition processRequestPost ::
  "ConsentRequest \<Rightarrow> response \<Rightarrow> error option \<Rightarrow> state \<Rightarrow> (error + unit) \<times> state" where
  "processRequestPost req resolveData rejectData s =
     (case findIndex (\<lambda>r. id' req = id' r) (consentRequests s) of
        None \<Rightarrow> (Inl (NotFound (id' req)), s)
      | Some index \<Rightarrow>
          (let wait = (id' req \<in> set (waits s));
               s1 = (if wait then s\<lparr>waits := waits_delete (id' req) (waits s)\<rparr> else s);
               resolving =
                 (if wait then s1\<lparr>settled := settled s1 @ [(id' req, Resolved resolveData)]\<rparr>
                  else s1)
           in case (case rejectData of
                      Some err \<Rightarrow>
                        if truthy err then
                          (if isObject err
                           then Inr (if wait
                                     then s1\<lparr>settled := settled s1 @ [(id' req, Rejected err)]\<rparr>
                                     else s1)
                           else Inl TypeError)
                        else Inr resolving
                    | None \<Rightarrow> Inr resolving) of
                Inl e \<Rightarrow> (Inl e, s1)
              | Inr s2 \<Rightarrow>
                  (let reqs' = take index (consentRequests s2) @
                               drop (index + 1) (consentRequests s2);
                       s3 = s2\<lparr>consentRequests := reqs', store := Some reqs'\<rparr>
                   in (Inr (), setBadge s3))))"

text \<open>The \<open>try\<close> block of \<open>processRequest\<close>: \<open>Inl\<close> is the error it throws.\<close>

definition processRequest_try ::
  "collab \<Rightarrow> ConsentRequest \<Rightarrow> bool \<Rightarrow> state \<Rightarrow> (error + response) \<times> state" where
  "processRequest_try c req approve s =
     (if \<not> approve then (Inl UserRejectedRequest, s)
      else
        (case (if type req = TRANSACTION then processRequestSignTx c req else Inr (None, None)) of
           Inl err \<Rightarrow> (Inl err, s)
         | Inr (signed, hash) \<Rightarrow> processRequestIntermediate c req signed hash s))"

text \<open>
  The \<open>catch\<close> block: the notification. For a transaction it evaluates
  \<open>err.toString()\<close>, which throws a \<open>TypeError\<close> out of the block when \<open>err\<close> is
  \<open>null\<close> or \<open>undefined\<close>; \<open>Inl\<close> is that error.
\<close>

definition processRequest_catch :: "ConsentRequest \<Rightarrow> error \<Rightarrow> state \<Rightarrow> error + state" where
  "processRequest_catch req err s =
     (if type req = TRANSACTION then
        (case toString err of
           None \<Rightarrow> Inl TypeError
         | Some txt \<Rightarrow>
             if \<not> includes_str txt ''User rejected the request''
             then Inr (s\<lparr>notifications := notifications s @
                       [(''Failed transaction'',
                         ''Transaction encountered an error. ('' @ txt @ '')'')]\<rparr>)
             else Inr s)
      else Inr s)"

text \<open>\<open>processRequest\<close>: an error out of the \<open>catch\<close> block leaves the function before
  \<open>processRequestPost\<close> is called.\<close>

definition processRequest :: "collab \<Rightarrow> ConsentRequest \<Rightarrow> bool \<Rightarrow> state \<Rightarrow> (error + unit) \<times> state" where
  "processRequest c req approve s =
     (case processRequest_try c req approve s of
        (Inr resolve, s1) \<Rightarrow> processRequestPost req resolve None s1
      | (Inl err, s1) \<Rightarrow>
          (case processRequest_catch req err s1 of
             Inl e \<Rightarrow> (Inl e, s1)
           | Inr s2 \<Rightarrow> processRequestPost req NoResponse (Some err) s2))"

subsection \<open>Histories\<close>

text \<open>
  What can happen to the service: a call of one of its three entry points, with the
  behaviour of the collaborators during that call, or a restart of the service worker,
  which runs the constructor again on what the store holds.
\<close>

datatype call =
    RequestConsent collab RequestWithoutId "Context option" bool
  | ProcessRequest collab ConsentRequest bool
  | ClearRequests "ConsentType option"
  | Restart

fun exec :: "call \<Rightarrow> state \<Rightarrow> state" where
  "exec (RequestConsent c request ctx waitCompleted) s = snd (requestConsent c request ctx waitCompleted s)"
| "exec (ProcessRequest c req approve) s = snd (processRequest c req approve s)"
| "exec (ClearRequests t) s = clearRequests t s"
| "exec Restart s = constructor s"

fun run :: "call list \<Rightarrow> state \<Rightarrow> state" where
  "run [] s = s"
| "run (c # cs) s = run cs (exec c s)"

text \<open>Whether \<open>'message' in rejectData\<close> is reached and throws, and what the handle is
  called with when it does not.\<close>

definition in_throws :: "error option \<Rightarrow> bool" where
  "in_throws rejectData =
     (case rejectData of Some err \<Rightarrow> truthy err \<and> \<not> isObject err | None \<Rightarrow> False)"

definition settlement_of :: "response \<Rightarrow> error option \<Rightarrow> settlement" where
  "settlement_of resolveData rejectData =
     (case rejectData of
        Some err \<Rightarrow> if truthy err then Rejected err else Resolved resolveData
      | None \<Rightarrow> Resolved resolveData)"

text \<open>What \<open>processRequest\<close> passes to \<open>processRequestPost\<close> as \<open>resolveData\<close> and
  \<open>rejectData\<close>, by the outcome of its \<open>try\<close> block.\<close>

definition resolve_arg :: "error + response \<Rightarrow> response" where
  "resolve_arg r = (case r of Inr v \<Rightarrow> v | Inl err \<Rightarrow> NoResponse)"

definition reject_arg :: "error + response \<Rightarrow> error option" where
  "reject_arg r = (case r of Inr v \<Rightarrow> None | Inl err \<Rightarrow> Some err)"

text \<open>Whether \<open>clearRequests(type)\<close> is meant to remove a request: every request when
  the type is omitted, the requests of that type otherwise.\<close>

definition matches :: "ConsentType option \<Rightarrow> ConsentRequest \<Rightarrow> bool" where
  "matches t r = (case t of None \<Rightarrow> True | Some ty \<Rightarrow> type r = ty)"

text \<open>What holds of the handles in every state the service reaches: every key of
  \<open>waits\<close> and every id with a call in \<open>settled\<close> is below \<open>nextId\<close>, no key and no
  id occurs twice, and no id with a call in \<open>settled\<close> is still a key of \<open>waits\<close>.\<close>

definition handles_ok :: "state \<Rightarrow> bool" where
  "handles_ok s \<longleftrightarrow>
     (\<forall>k\<in>set (waits s). k < nextId s) \<and>
     (\<forall>k\<in>fst ` set (settled s). k < nextId s) \<and>
     distinct (waits s) \<and>
     distinct (map fst (settled s)) \<and>
     (\<forall>k\<in>set (waits s). k \<notin> fst ` set (settled s))"

text \<open>The ids that a call brought into the queue, and the ids that a history issued, in
  the order of issue.\<close>

definition newIds :: "state \<Rightarrow> state \<Rightarrow> int list" where
  "newIds s s' =
     filter (\<lambda>k. k \<notin> set (map id' (consentRequests s))) (map id' (consentRequests s'))"

fun issued :: "call list \<Rightarrow> state \<Rightarrow> int list" where
  "issued [] s = []"
| "issued (c # cs) s = newIds s (exec c s) @ issued cs (exec c s)"

text \<open>Every queued id is below \<open>nextId\<close>.\<close>

definition bounded :: "state \<Rightarrow> bool" where
  "bounded s \<longleftrightarrow> (\<forall>r\<in>set (consentRequests s). id' r < nextId s)"

text \<open>The id \<open>k\<close> was issued, has no handle and has had no callback called.\<close>

definition unheld :: "int \<Rightarrow> state \<Rightarrow> bool" where
  "unheld k s \<longleftrightarrow> k < nextId s \<and> k \<notin> set (waits s) \<and> k \<notin> fst ` set (settled s)"

text \<open>What holds of the queue in every state reached from a first start: the queued ids
  are below \<open>nextId\<close> and distinct, and the store holds the queue.\<close>

definition queue_ok :: "state \<Rightarrow> bool" where
  "queue_ok s \<longleftrightarrow>
     bounded s \<and> distinct (map id' (consentRequests s)) \<and> store s = Some (consentRequests s)"

subsection \<open>Sample inputs\<close>

text \<open>Collaborators that all succeed, with the wallet of master id 9 unable to sign;
  an empty payload; a request of a given type for a given account.\<close>

definition collab0 :: collab where
  "collab0 =
     \<lparr>canWalletSign = (\<lambda>t. t \<noteq> ''watch''),
      getChainAccount = (\<lambda>i. Some \<lparr>account_id = i, masterId = i\<rparr>),
      getWallet = (\<lambda>m. Some \<lparr>wallet_id = m, wallet_type = (if m = 9 then ''watch'' else ''hd'')\<rparr>),
      getNetwork = (\<lambda>n. Some \<lparr>network_id = n, kind = EVM\<rparr>),
      getProvider = (\<lambda>nw. Inr 0),
      getChainAccounts = map (\<lambda>i. \<lparr>account_id = i, masterId = i\<rparr>),
      formatTxPayload = (\<lambda>nw pl. Inr \<lparr>txParams = tx pl, populatedParams = None,
                                           signedTx = None, txHash = None\<rparr>),
      signTransaction = (\<lambda>p a t. Inr ''signed''),
      sendTransaction = (\<lambda>p stx. Inr ''0xhash''),
      pollTransaction = (\<lambda>p h. None),
      addPendingTx = (\<lambda>k a pl r. Inr ()),
      signMessage = (\<lambda>p a m. Inr ''0xsig''),
      signTypedData = (\<lambda>p a d. Inr ''0xsig''),
      connectSiteWithReplace = (\<lambda>a orig. Inr ()),
      addNetwork = (\<lambda>k ch i. Inr ()),
      setActiveNetwork = (\<lambda>n. Inr ())\<rparr>"

definition payload0 :: Payload where
  "payload0 = \<lparr>permissions = None, message = None, signature = None, typedData = None,
     token = None, info = None, balance = None, networkKind = None, chainId = None,
     tx = None\<rparr>"

definition request0 :: "ConsentType \<Rightarrow> int \<Rightarrow> RequestWithoutId" where
  "request0 ty a = \<lparr>networkId = Some 1, accountId = Some (Single a), type = ty,
     origin = Some ''https://dapp.example'', payload = payload0\<rparr>"

text \<open>A service with three queued requests, A (transaction, id 0), B (message signature,
  id 1) and C (transaction, id 2), each with a Completion Handle; and collaborators
  whose provider fails to send.\<close>

definition queueABC :: state where
  "queueABC = (browser None)
     \<lparr>consentRequests := [with_id (request0 TRANSACTION 1) 0, with_id (request0 SIGN_MSG 1) 1,
                          with_id (request0 TRANSACTION 1) 2],
      waits := [0, 1, 2], nextId := 3,
      store := Some [with_id (request0 TRANSACTION 1) 0, with_id (request0 SIGN_MSG 1) 1,
                     with_id (request0 TRANSACTION 1) 2]\<rparr>"

definition collab_fail :: collab where
  "collab_fail = collab0\<lparr>sendTransaction := (\<lambda>p stx. Inl (Thrown ''insufficient funds''))\<rparr>"

text \<open>Collaborators whose provider rejects a message signature with the string
  \<open>device busy\<close>, or with the empty string, and collaborators whose provider rejects a
  transaction signature with \<open>undefined\<close>.\<close>

definition collab_string :: collab where
  "collab_string = collab0\<lparr>signMessage := (\<lambda>p a m. Inl (ThrownPrimitive ''device busy'' True))\<rparr>"

definition collab_empty :: collab where
  "collab_empty = collab0\<lparr>signMessage := (\<lambda>p a m. Inl (ThrownPrimitive [] False))\<rparr>"

definition collab_undefined :: collab where
  "collab_undefined = collab0\<lparr>signTransaction := (\<lambda>p a t. Inl ThrownNullish)\<rparr>"

text \<open>A history with a restart: two requests are admitted, the second is approved, the
  service worker restarts and a third request is admitted. And a stored queue with the
  ids 5, 6 and 7.\<close>

definition history_reuse :: "call list" where
  "history_reuse =
     [RequestConsent collab0 (request0 SIGN_MSG 1) None True,
      RequestConsent collab0 (request0 SIGN_MSG 1) None True,
      ProcessRequest collab0 (with_id (request0 SIGN_MSG 1) 1) True,
      Restart,
      RequestConsent collab0 (request0 SIGN_MSG 1) None True]"

definition restored567 :: "ConsentRequest list" where
  "restored567 = [with_id (request0 TRANSACTION 1) 5, with_id (request0 SIGN_MSG 1) 6,
                  with_id (request0 TRANSACTION 1) 7]"

text \<open>A request to watch a token, and a hidden entry for that token.\<close>

definition watchRequest :: ConsentRequest where
  "watchRequest = with_id ((request0 WATCH_ASSET 1)\<lparr>payload := payload0\<lparr>token := Some ''0xT0KEN'',
     info := Some ''TKN'', balance := Some ''0''\<rparr>\<rparr>) 3"

definition hiddenToken :: IToken where
  "hiddenToken = \<lparr>token_id = 1, token_account = \<lparr>account_id = 1, masterId = 1\<rparr>,
     token_address = Some ''0xT0KEN'', visible = HIDE, token_info = (None, None)\<rparr>"

section \<open>Properties\<close>

subsection \<open>What the operations leave alone\<close>

lemma setBadge_fields [simp]:
  "consentRequests (setBadge s) = consentRequests s"
  "waits (setBadge s) = waits s"
  "nextId (setBadge s) = nextId s"
  "settled (setBadge s) = settled s"
  "store (setBadge s) = store s"
  "notifications (setBadge s) = notifications s"
  "tokens (setBadge s) = tokens s"
  by (simp_all add: setBadge_def)

lemma openPopup_fields [simp]:
  "consentRequests (openPopup request req ctx s) = consentRequests s"
  "waits (openPopup request req ctx s) = waits s"
  "nextId (openPopup request req ctx s) = nextId s"
  "settled (openPopup request req ctx s) = settled s"
  "store (openPopup request req ctx s) = store s"
  "notifications (openPopup request req ctx s) = notifications s"
  "tokens (openPopup request req ctx s) = tokens s"
  by (simp_all add: openPopup_def Let_def split: option.splits)

lemma addRequest_fields [simp]:
  "waits (addRequest req s) = waits s"
  "nextId (addRequest req s) = nextId s"
  "settled (addRequest req s) = settled s"
  "store (addRequest req s) = Some (consentRequests (addRequest req s))"
  "notifications (addRequest req s) = notifications s"
  "tokens (addRequest req s) = tokens s"
  by (simp_all add: addRequest_def Let_def)

lemma addRequest_loop_none:
  "\<forall>j<n. type (reqs ! j) \<noteq> t \<Longrightarrow> addRequest_loop reqs n t = 0"
  by (induction n) auto

lemma addRequest_loop_found:
  "\<exists>j<n. type (reqs ! j) = t \<Longrightarrow>
   0 < addRequest_loop reqs n t \<and> addRequest_loop reqs n t \<le> n \<and>
   type (reqs ! (addRequest_loop reqs n t - 1)) = t \<and>
   (\<forall>j. addRequest_loop reqs n t \<le> j \<and> j < n \<longrightarrow> type (reqs ! j) \<noteq> t)"
proof (induction n)
  case 0
  then show ?case by simp
next
  case (Suc n)
  show ?case
  proof (cases "type (reqs ! n) = t")
    case True
    then show ?thesis by auto
  next
    case False
    with Suc.prems have "\<exists>j<n. type (reqs ! j) = t"
      by (metis less_Suc_eq)
    from Suc.IH [OF this] False show ?thesis
      by (auto simp: less_Suc_eq)
  qed
qed

lemma addRequest_same_type:
  assumes "\<exists>r\<in>set (consentRequests s). type r = type req"
  shows "\<exists>xs ys. consentRequests s = xs @ ys \<and> xs \<noteq> [] \<and> type (last xs) = type req \<and>
           (\<forall>y\<in>set ys. type y \<noteq> type req) \<and>
           consentRequests (addRequest req s) = xs @ req # ys"
proof -
  let ?q = "consentRequests s"
  let ?k = "addRequest_loop ?q (length ?q) (type req)"
  from assms have ne: "?q \<noteq> []" by auto
  from assms have "\<exists>j<length ?q. type (?q ! j) = type req"
    by (metis in_set_conv_nth)
  from addRequest_loop_found [OF this]
  have k: "0 < ?k" "?k \<le> length ?q" "type (?q ! (?k - 1)) = type req"
    and after: "\<forall>j. ?k \<le> j \<and> j < length ?q \<longrightarrow> type (?q ! j) \<noteq> type req"
    by auto
  have split: "?q = take ?k ?q @ drop ?k ?q" by simp
  have nonempty: "take ?k ?q \<noteq> []" using k ne by auto
  have "last (take ?k ?q) = ?q ! (?k - 1)"
    using k nonempty by (simp add: last_conv_nth min_def)
  then have lastty: "type (last (take ?k ?q)) = type req" using k by simp
  have rest: "\<forall>y\<in>set (drop ?k ?q). type y \<noteq> type req"
  proof
    fix y assume "y \<in> set (drop ?k ?q)"
    then obtain i where "i < length (drop ?k ?q)" "y = drop ?k ?q ! i"
      by (metis in_set_conv_nth)
    then have "y = ?q ! (?k + i)" "?k + i < length ?q" using k by auto
    with after show "type y \<noteq> type req" by simp
  qed
  have res: "consentRequests (addRequest req s) = take ?k ?q @ req # drop ?k ?q"
    using k ne by (simp add: addRequest_def Let_def)
  from split nonempty lastty rest res show ?thesis by blast
qed

lemma addRequest_other_type:
  assumes "\<forall>r\<in>set (consentRequests s). type r \<noteq> type req"
  shows "consentRequests (addRequest req s) = consentRequests s @ [req]"
proof -
  from assms have "\<forall>j<length (consentRequests s). type (consentRequests s ! j) \<noteq> type req"
    by simp
  from addRequest_loop_none [OF this] show ?thesis
    by (simp add: addRequest_def Let_def)
qed

lemma requestConsent_admitted:
  assumes "admission c request = Inr u"
  shows "consentRequests (snd (requestConsent c request ctx w s)) =
           consentRequests (addRequest (with_id request (nextId s)) (s\<lparr>nextId := nextId s + 1\<rparr>))"
    and "nextId (snd (requestConsent c request ctx w s)) = nextId s + 1"
    and "store (snd (requestConsent c request ctx w s)) =
           Some (consentRequests (snd (requestConsent c request ctx w s)))"
    and "waits (snd (requestConsent c request ctx w s)) =
           (if w then waits_set (nextId s) (waits s) else waits s)"
    and "settled (snd (requestConsent c request ctx w s)) = settled s"
    and "fst (requestConsent c request ctx w s) = Inr (if w then Awaiting (nextId s) else Undefined)"
  using assms by (simp_all add: requestConsent_def Let_def with_id_def)

lemma requestConsent_rejected:
  "admission c request = Inl err \<Longrightarrow> requestConsent c request ctx w s = (Inl err, s)"
  by (simp add: requestConsent_def)

lemmas eval_defs = init_def browser_def constructor_def requestConsent_def admission_def
  collab0_def request0_def payload0_def with_id_def addRequest_def setBadge_def openPopup_def
  waits_set_def Let_def

lemma dispatchWatchAsset_fields [simp]:
  "consentRequests (snd (dispatchWatchAsset req r s)) = consentRequests s"
  "waits (snd (dispatchWatchAsset req r s)) = waits s"
  "nextId (snd (dispatchWatchAsset req r s)) = nextId s"
  "settled (snd (dispatchWatchAsset req r s)) = settled s"
  "store (snd (dispatchWatchAsset req r s)) = store s"
  "notifications (snd (dispatchWatchAsset req r s)) = notifications s"
  by (simp_all add: dispatchWatchAsset_def split: option.splits)

lemma processRequestIntermediate_fields [simp]:
  "consentRequests (snd (processRequestIntermediate c req sg h s)) = consentRequests s"
  "waits (snd (processRequestIntermediate c req sg h s)) = waits s"
  "nextId (snd (processRequestIntermediate c req sg h s)) = nextId s"
  "settled (snd (processRequestIntermediate c req sg h s)) = settled s"
  "store (snd (processRequestIntermediate c req sg h s)) = store s"
  "notifications (snd (processRequestIntermediate c req sg h s)) = notifications s"
  by (simp_all add: processRequestIntermediate_def
      split: sum.splits option.splits ConsentType.splits)

lemma processRequest_try_fields [simp]:
  "consentRequests (snd (processRequest_try c req approve s)) = consentRequests s"
  "waits (snd (processRequest_try c req approve s)) = waits s"
  "nextId (snd (processRequest_try c req approve s)) = nextId s"
  "settled (snd (processRequest_try c req approve s)) = settled s"
  "store (snd (processRequest_try c req approve s)) = store s"
  "notifications (snd (processRequest_try c req approve s)) = notifications s"
  by (simp_all add: processRequest_try_def split: sum.splits prod.splits)

lemma processRequest_catch_fields:
  assumes "processRequest_catch req err s = Inr s2"
  shows "consentRequests s2 = consentRequests s" and "waits s2 = waits s"
    and "nextId s2 = nextId s" and "settled s2 = settled s" and "store s2 = store s"
    and "tokens s2 = tokens s"
  using assms
  by (auto simp: processRequest_catch_def split: if_splits option.splits)

lemma toString_None: "toString err = None \<longleftrightarrow> err = ThrownNullish"
  by (cases err) simp_all

lemma processRequest_catch_throws:
  "processRequest_catch req err s = Inl e \<longleftrightarrow>
     type req = TRANSACTION \<and> err = ThrownNullish \<and> e = TypeError"
  by (auto simp: processRequest_catch_def toString_None split: if_splits option.splits)

lemma isObject_truthy: "isObject err \<Longrightarrow> truthy err \<and> err \<noteq> ThrownNullish"
  by (cases err) simp_all

lemma findIndex_None: "findIndex P xs = None \<longleftrightarrow> (\<forall>x\<in>set xs. \<not> P x)"
  by (induction xs) (auto split: option.splits)

lemma findIndex_Some:
  "findIndex P xs = Some i \<Longrightarrow>
   i < length xs \<and> P (xs ! i) \<and> (\<forall>x\<in>set (take i xs). \<not> P x)"
proof (induction xs arbitrary: i)
  case Nil
  then show ?case by simp
next
  case (Cons x xs)
  show ?case
  proof (cases "P x")
    case True
    with Cons.prems show ?thesis by simp
  next
    case False
    with Cons.prems obtain j where j: "findIndex P xs = Some j" "i = Suc j"
      by (auto split: option.splits)
    from Cons.IH [OF j(1)] False j(2) show ?thesis by simp
  qed
qed

lemma processRequestPost_missing:
  "id' req \<notin> id' ` set (consentRequests s) \<Longrightarrow>
   processRequestPost req v e s = (Inl (NotFound (id' req)), s)"
proof -
  assume "id' req \<notin> id' ` set (consentRequests s)"
  then have "findIndex (\<lambda>r. id' req = id' r) (consentRequests s) = None"
    by (auto simp: findIndex_None)
  then show ?thesis by (simp add: processRequestPost_def)
qed

lemma processRequestPost_index:
  assumes "id' req \<in> id' ` set (consentRequests s)"
  shows "\<exists>i. findIndex (\<lambda>r. id' req = id' r) (consentRequests s) = Some i \<and>
           i < length (consentRequests s) \<and> id' (consentRequests s ! i) = id' req \<and>
           id' req \<notin> id' ` set (take i (consentRequests s))"
proof -
  from assms have "findIndex (\<lambda>r. id' req = id' r) (consentRequests s) \<noteq> None"
    by (auto simp: findIndex_None)
  then obtain i where i: "findIndex (\<lambda>r. id' req = id' r) (consentRequests s) = Some i"
    by auto
  from findIndex_Some [OF i] have "i < length (consentRequests s)"
    "id' (consentRequests s ! i) = id' req" "id' req \<notin> id' ` set (take i (consentRequests s))"
    by auto
  with i show ?thesis by blast
qed

lemma waits_delete_absent: "k \<notin> set ws \<Longrightarrow> waits_delete k ws = ws"
  by (auto simp: waits_delete_def filter_id_conv)

text \<open>\<open>processRequestPost\<close> on a queued id, where \<open>in\<close> throws: the handle is
  unregistered and nothing else has happened.\<close>

lemma processRequestPost_in_throws:
  assumes "id' req \<in> id' ` set (consentRequests s)" and "in_throws e"
  shows "processRequestPost req v e s =
           (Inl TypeError, s\<lparr>waits := waits_delete (id' req) (waits s)\<rparr>)"
proof -
  from processRequestPost_index [OF assms(1)] obtain i where
    i: "findIndex (\<lambda>r. id' req = id' r) (consentRequests s) = Some i" by blast
  from assms(2) obtain err where e: "e = Some err" "truthy err" "\<not> isObject err"
    by (auto simp: in_throws_def split: option.splits)
  show ?thesis
  proof (cases "id' req \<in> set (waits s)")
    case True
    with i e show ?thesis by (simp add: processRequestPost_def Let_def)
  next
    case False
    then have "s\<lparr>waits := waits_delete (id' req) (waits s)\<rparr> = s"
      by (simp add: waits_delete_absent)
    with False i e show ?thesis by (simp add: processRequestPost_def Let_def)
  qed
qed

text \<open>\<open>processRequestPost\<close> on a queued id, where \<open>in\<close> does not throw.\<close>

lemma processRequestPost_ok:
  assumes "id' req \<in> id' ` set (consentRequests s)" and "\<not> in_throws e"
  shows "\<exists>i. i < length (consentRequests s) \<and> id' (consentRequests s ! i) = id' req \<and>
           id' req \<notin> id' ` set (take i (consentRequests s)) \<and>
           consentRequests (snd (processRequestPost req v e s)) =
             take i (consentRequests s) @ drop (Suc i) (consentRequests s)"
    and "fst (processRequestPost req v e s) = Inr ()"
    and "store (snd (processRequestPost req v e s)) =
           Some (consentRequests (snd (processRequestPost req v e s)))"
    and "waits (snd (processRequestPost req v e s)) = waits_delete (id' req) (waits s)"
    and "settled (snd (processRequestPost req v e s)) =
           settled s @ (if id' req \<in> set (waits s) then [(id' req, settlement_of v e)] else [])"
    and "nextId (snd (processRequestPost req v e s)) = nextId s"
    and "notifications (snd (processRequestPost req v e s)) = notifications s"
proof -
  from processRequestPost_index [OF assms(1)] obtain i where
    i: "findIndex (\<lambda>r. id' req = id' r) (consentRequests s) = Some i"
    and i': "i < length (consentRequests s)" "id' (consentRequests s ! i) = id' req"
      "id' req \<notin> id' ` set (take i (consentRequests s))"
    by blast
  have q: "consentRequests (snd (processRequestPost req v e s)) =
             take i (consentRequests s) @ drop (Suc i) (consentRequests s)"
    using i assms(2)
    by (auto simp: processRequestPost_def Let_def in_throws_def split: option.splits)
  with i' show "\<exists>i. i < length (consentRequests s) \<and> id' (consentRequests s ! i) = id' req \<and>
           id' req \<notin> id' ` set (take i (consentRequests s)) \<and>
           consentRequests (snd (processRequestPost req v e s)) =
             take i (consentRequests s) @ drop (Suc i) (consentRequests s)"
    by blast
  show "fst (processRequestPost req v e s) = Inr ()"
    using i assms(2)
    by (auto simp: processRequestPost_def Let_def in_throws_def split: option.splits)
  show "store (snd (processRequestPost req v e s)) =
           Some (consentRequests (snd (processRequestPost req v e s)))"
    using i assms(2)
    by (auto simp: processRequestPost_def Let_def in_throws_def split: option.splits)
  show "waits (snd (processRequestPost req v e s)) = waits_delete (id' req) (waits s)"
    using i assms(2)
    by (auto simp: processRequestPost_def Let_def in_throws_def waits_delete_absent
        split: option.splits)
  show "settled (snd (processRequestPost req v e s)) =
           settled s @ (if id' req \<in> set (waits s) then [(id' req, settlement_of v e)] else [])"
    using i assms(2)
    by (auto simp: processRequestPost_def Let_def in_throws_def settlement_of_def
        split: option.splits)
  show "nextId (snd (processRequestPost req v e s)) = nextId s"
    using i assms(2)
    by (auto simp: processRequestPost_def Let_def in_throws_def split: option.splits)
  show "notifications (snd (processRequestPost req v e s)) = notifications s"
    using i assms(2)
    by (auto simp: processRequestPost_def Let_def in_throws_def split: option.splits)
qed

text \<open>
  \<open>processRequest\<close> either leaves through its \<open>catch\<close> block, having changed nothing
  of the service, or is \<open>processRequestPost\<close> applied to a state with the queue, the
  handles, the counter and the store of the state it started in.
\<close>

lemma processRequest_cases:
  obtains
    (crash) "processRequest c req a s = (Inl TypeError, snd (processRequest_try c req a s))"
      and "type req = TRANSACTION" and "fst (processRequest_try c req a s) = Inl ThrownNullish"
  | (post) s1 where
      "processRequest c req a s =
         processRequestPost req (resolve_arg (fst (processRequest_try c req a s)))
           (reject_arg (fst (processRequest_try c req a s))) s1"
      and "consentRequests s1 = consentRequests s" and "waits s1 = waits s"
      and "nextId s1 = nextId s" and "settled s1 = settled s" and "store s1 = store s"
      and "\<not> (type req = TRANSACTION \<and> fst (processRequest_try c req a s) = Inl ThrownNullish)"
proof (cases "processRequest_try c req a s")
  case (Pair r s0)
  have f: "consentRequests s0 = consentRequests s" "waits s0 = waits s" "nextId s0 = nextId s"
    "settled s0 = settled s" "store s0 = store s"
    using processRequest_try_fields [of c req a s] Pair by simp_all
  show ?thesis
  proof (cases r)
    case (Inr v)
    with Pair have "processRequest c req a s =
        processRequestPost req (resolve_arg (fst (processRequest_try c req a s)))
          (reject_arg (fst (processRequest_try c req a s))) s0"
      by (simp add: processRequest_def resolve_arg_def reject_arg_def)
    with f Inr Pair show ?thesis by (intro post [of s0]) simp_all
  next
    case (Inl err)
    show ?thesis
    proof (cases "processRequest_catch req err s0")
      case (Inl e)
      then have e: "type req = TRANSACTION" "err = ThrownNullish" "e = TypeError"
        by (simp_all add: processRequest_catch_throws)
      with Pair \<open>r = Inl err\<close> Inl show ?thesis
        by (intro crash) (simp_all add: processRequest_def)
    next
      case (Inr s2)
      with Pair \<open>r = Inl err\<close> have "processRequest c req a s =
          processRequestPost req (resolve_arg (fst (processRequest_try c req a s)))
            (reject_arg (fst (processRequest_try c req a s))) s2"
        by (simp add: processRequest_def resolve_arg_def reject_arg_def)
      moreover from Inr have "\<not> (type req = TRANSACTION \<and> err = ThrownNullish)"
        using processRequest_catch_throws [of req err s0 TypeError] by auto
      ultimately show ?thesis
        using processRequest_catch_fields [OF Inr] f Pair \<open>r = Inl err\<close>
        by (intro post [of s2]) simp_all
    qed
  qed
qed

text \<open>What any call of \<open>processRequest\<close> does to the service: nothing but, at most,
  unregistering the handle; or the removal of the entry with at most one callback call.\<close>

lemma processRequest_effect:
  "nextId (snd (processRequest c req a s)) = nextId s \<and>
   ((consentRequests (snd (processRequest c req a s)) = consentRequests s \<and>
     store (snd (processRequest c req a s)) = store s \<and>
     settled (snd (processRequest c req a s)) = settled s \<and>
     (waits (snd (processRequest c req a s)) = waits s \<or>
      waits (snd (processRequest c req a s)) = waits_delete (id' req) (waits s)) \<and>
     fst (processRequest c req a s) \<noteq> Inr ()) \<or>
    (\<exists>i x. i < length (consentRequests s) \<and> id' (consentRequests s ! i) = id' req \<and>
       id' req \<notin> id' ` set (take i (consentRequests s)) \<and>
       consentRequests (snd (processRequest c req a s)) =
         take i (consentRequests s) @ drop (Suc i) (consentRequests s) \<and>
       store (snd (processRequest c req a s)) =
         Some (consentRequests (snd (processRequest c req a s))) \<and>
       waits (snd (processRequest c req a s)) = waits_delete (id' req) (waits s) \<and>
       settled (snd (processRequest c req a s)) =
         settled s @ (if id' req \<in> set (waits s) then [(id' req, x)] else []) \<and>
       fst (processRequest c req a s) = Inr ()))"
proof (cases rule: processRequest_cases [of c req a s])
  case crash
  then show ?thesis by simp
next
  case (post s1)
  let ?v = "resolve_arg (fst (processRequest_try c req a s))"
  let ?e = "reject_arg (fst (processRequest_try c req a s))"
  show ?thesis
  proof (cases "id' req \<in> id' ` set (consentRequests s1)")
    case False
    from processRequestPost_missing [OF False, of ?v ?e] post show ?thesis by simp
  next
    case True
    show ?thesis
    proof (cases "in_throws ?e")
      case thr: True
      from processRequestPost_in_throws [OF True thr, of ?v] post show ?thesis by simp
    next
      case ok: False
      note p = processRequestPost_ok [OF True ok, of ?v]
      from p(1) obtain i where i: "i < length (consentRequests s1)"
        "id' (consentRequests s1 ! i) = id' req" "id' req \<notin> id' ` set (take i (consentRequests s1))"
        "consentRequests (snd (processRequestPost req ?v ?e s1)) =
           take i (consentRequests s1) @ drop (Suc i) (consentRequests s1)"
        by blast
      have "\<exists>i x. i < length (consentRequests s) \<and> id' (consentRequests s ! i) = id' req \<and>
         id' req \<notin> id' ` set (take i (consentRequests s)) \<and>
         consentRequests (snd (processRequest c req a s)) =
           take i (consentRequests s) @ drop (Suc i) (consentRequests s) \<and>
         store (snd (processRequest c req a s)) =
           Some (consentRequests (snd (processRequest c req a s))) \<and>
         waits (snd (processRequest c req a s)) = waits_delete (id' req) (waits s) \<and>
         settled (snd (processRequest c req a s)) =
           settled s @ (if id' req \<in> set (waits s) then [(id' req, x)] else []) \<and>
         fst (processRequest c req a s) = Inr ()"
        using i p(2-5) post(1-6)
        by (intro exI [of _ i] exI [of _ "settlement_of ?v ?e"]) simp
      moreover have "nextId (snd (processRequest c req a s)) = nextId s"
        using p(6) post by simp
      ultimately show ?thesis by blast
    qed
  qed
qed

lemma processRequest_nextId [simp]: "nextId (snd (processRequest c req a s)) = nextId s"
  using processRequest_effect [of c req a s] by blast

lemma processRequest_queue_subset:
  "set (consentRequests (snd (processRequest c req a s))) \<subseteq> set (consentRequests s)"
proof -
  from processRequest_effect [of c req a s]
  consider "consentRequests (snd (processRequest c req a s)) = consentRequests s"
    | i where "consentRequests (snd (processRequest c req a s)) =
         take i (consentRequests s) @ drop (Suc i) (consentRequests s)"
    by blast
  then show ?thesis
    by cases (auto dest: in_set_takeD in_set_dropD)
qed

text \<open>\<open>processRequest\<close> for an id that is not queued: an error, and nothing changes.\<close>

lemma processRequest_absent:
  assumes "id' req \<notin> id' ` set (consentRequests s)"
  shows "fst (processRequest c req a s) =
           (if type req = TRANSACTION \<and> fst (processRequest_try c req a s) = Inl ThrownNullish
            then Inl TypeError else Inl (NotFound (id' req)))"
    and "settled (snd (processRequest c req a s)) = settled s"
    and "waits (snd (processRequest c req a s)) = waits s"
    and "consentRequests (snd (processRequest c req a s)) = consentRequests s"
    and "store (snd (processRequest c req a s)) = store s"
proof -
  have "fst (processRequest c req a s) =
           (if type req = TRANSACTION \<and> fst (processRequest_try c req a s) = Inl ThrownNullish
            then Inl TypeError else Inl (NotFound (id' req))) \<and>
        settled (snd (processRequest c req a s)) = settled s \<and>
        waits (snd (processRequest c req a s)) = waits s \<and>
        consentRequests (snd (processRequest c req a s)) = consentRequests s \<and>
        store (snd (processRequest c req a s)) = store s"
  proof (cases rule: processRequest_cases [of c req a s])
    case crash
    then show ?thesis by simp
  next
    case (post s1)
    from assms post(2) have "id' req \<notin> id' ` set (consentRequests s1)" by simp
    from processRequestPost_missing [OF this] post show ?thesis by simp
  qed
  then show "fst (processRequest c req a s) =
           (if type req = TRANSACTION \<and> fst (processRequest_try c req a s) = Inl ThrownNullish
            then Inl TypeError else Inl (NotFound (id' req)))"
    and "settled (snd (processRequest c req a s)) = settled s"
    and "waits (snd (processRequest c req a s)) = waits s"
    and "consentRequests (snd (processRequest c req a s)) = consentRequests s"
    and "store (snd (processRequest c req a s)) = store s"
    by simp_all
qed

text \<open>After a \<open>processRequest\<close> that returned normally, the id is queued no more.\<close>

lemma processRequest_settled_gone:
  assumes "distinct (map id' (consentRequests s))"
    and "fst (processRequest c req a s) = Inr ()"
  shows "id' req \<notin> id' ` set (consentRequests (snd (processRequest c req a s)))"
proof -
  from processRequest_effect [of c req a s] assms(2) obtain i where
    i: "i < length (consentRequests s)" "id' (consentRequests s ! i) = id' req"
      "consentRequests (snd (processRequest c req a s)) =
         take i (consentRequests s) @ drop (Suc i) (consentRequests s)"
    by auto
  have "consentRequests s = take i (consentRequests s) @ consentRequests s ! i #
      drop (Suc i) (consentRequests s)"
    using i(1) by (simp add: id_take_nth_drop)
  with assms(1) have "distinct (map id' (take i (consentRequests s) @ consentRequests s ! i #
      drop (Suc i) (consentRequests s)))"
    by metis
  with i(2) have "id' req \<notin> id' ` set (take i (consentRequests s))"
    "id' req \<notin> id' ` set (drop (Suc i) (consentRequests s))"
    by auto
  with i(3) show ?thesis by auto
qed

lemma clearRequests_loop_fields [simp]:
  "consentRequests (clearRequests_loop ks R s) = consentRequests s"
  "nextId (clearRequests_loop ks R s) = nextId s"
  "store (clearRequests_loop ks R s) = store s"
  "notifications (clearRequests_loop ks R s) = notifications s"
  "tokens (clearRequests_loop ks R s) = tokens s"
  by (induction ks arbitrary: s) simp_all

lemma clearRequests_loop_waits:
  "waits (clearRequests_loop ks R s) = filter (\<lambda>k. \<not> (k \<in> set ks \<and> k \<in> set R)) (waits s)"
proof (induction ks arbitrary: s)
  case Nil
  then show ?case by simp
next
  case (Cons k ks)
  show ?case
    by (auto simp: Cons.IH waits_delete_def intro: filter_cong)
qed

lemma clearRequests_loop_settled:
  "settled (clearRequests_loop ks R s) =
     settled s @ map (\<lambda>k. (k, Rejected UserRejectedRequest)) (filter (\<lambda>k. k \<in> set R) ks)"
  by (induction ks arbitrary: s) simp_all

lemmas eval_defs2 = queueABC_def clearRequests_def processRequest_def processRequest_try_def
  processRequest_catch_def processRequestPost_def processRequestIntermediate_def
  processRequestSignTx_def dispatchTransaction_def resolveRequest_def resolveNetwork_def
  waits_delete_def matches_def collab_fail_def unit_response_def val_response_def
  collab_string_def collab_empty_def collab_undefined_def

subsection \<open>Type grouping\<close>

text \<open>
  C4. A request that passes the admission check is inserted into the queue right after
  the last queued request of its own type, and at the end of the queue when no queued
  request has its type. The inserted entry is the request with the id \<open>nextId\<close>.
  Admitting A (transaction), B (message signature), C (transaction) in that order gives
  the queue A, C, B.
\<close>

theorem requestConsent_type_grouping:
  assumes "admission c request = Inr ()"
  shows "((\<exists>r\<in>set (consentRequests s). type r = type request) \<longrightarrow>
           (\<exists>xs ys. consentRequests s = xs @ ys \<and> xs \<noteq> [] \<and>
              type (last xs) = type request \<and> (\<forall>y\<in>set ys. type y \<noteq> type request) \<and>
              consentRequests (snd (requestConsent c request ctx w s)) =
                xs @ with_id request (nextId s) # ys)) \<and>
         ((\<forall>r\<in>set (consentRequests s). type r \<noteq> type request) \<longrightarrow>
            consentRequests (snd (requestConsent c request ctx w s)) =
              consentRequests s @ [with_id request (nextId s)])"
proof -
  let ?req = "with_id request (nextId s)"
  let ?s1 = "s\<lparr>nextId := nextId s + 1\<rparr>"
  have ty: "type ?req = type request" by (simp add: with_id_def)
  have q: "consentRequests ?s1 = consentRequests s" by simp
  have res: "consentRequests (snd (requestConsent c request ctx w s)) =
               consentRequests (addRequest ?req ?s1)"
    using assms by (rule requestConsent_admitted(1))
  show ?thesis
    using addRequest_same_type [of ?s1 ?req] addRequest_other_type [of ?s1 ?req]
    unfolding res q ty by blast
qed

theorem requestConsent_type_grouping_witness:
  "admission collab0 (request0 TRANSACTION 3) = Inr () \<and>
   map (\<lambda>r. (id' r, type r))
     (consentRequests (snd (requestConsent collab0 (request0 TRANSACTION 3) None True
        (run [RequestConsent collab0 (request0 TRANSACTION 1) None True,
              RequestConsent collab0 (request0 SIGN_MSG 2) None True] (init None))))) =
   [(0, TRANSACTION), (2, TRANSACTION), (1, SIGN_MSG)]"
  using requestConsent_type_grouping [of collab0 "request0 TRANSACTION 3"
      "run [RequestConsent collab0 (request0 TRANSACTION 1) None True,
            RequestConsent collab0 (request0 SIGN_MSG 2) None True] (init None)" None True]
  by (simp add: eval_defs)

subsection \<open>The admission check\<close>

text \<open>
  C3. A call of \<open>requestConsent\<close> for a transaction, a message signature or a typed-data
  signature, for a single account whose wallet cannot sign, fails at once with the
  user-rejected error and changes nothing: the queue, the store and every other part of
  the state are as before the call.
\<close>

theorem requestConsent_cannot_sign:
  assumes "type request = TRANSACTION \<or> type request = SIGN_MSG \<or> type request = SIGN_TYPED_DATA"
    and "accountId request = Some (Single a)"
    and "getChainAccount c a = Some acc"
    and "getWallet c (masterId acc) = Some wallet"
    and "\<not> canWalletSign c (wallet_type wallet)"
  shows "requestConsent c request ctx w s = (Inl UserRejectedRequest, s)"
proof -
  from assms have "admission c request = Inl UserRejectedRequest"
    by (auto simp: admission_def)
  then show ?thesis by (rule requestConsent_rejected)
qed

theorem requestConsent_cannot_sign_witness:
  "type (request0 TRANSACTION 9) = TRANSACTION \<and>
   accountId (request0 TRANSACTION 9) = Some (Single 9) \<and>
   getChainAccount collab0 9 = Some \<lparr>account_id = 9, masterId = 9\<rparr> \<and>
   getWallet collab0 9 = Some \<lparr>wallet_id = 9, wallet_type = ''watch''\<rparr> \<and>
   \<not> canWalletSign collab0 ''watch'' \<and>
   requestConsent collab0 (request0 TRANSACTION 9) (Some \<lparr>fromInternal = False\<rparr>) True queueABC =
     (Inl UserRejectedRequest, queueABC)"
  using requestConsent_cannot_sign [of "request0 TRANSACTION 9" 9 collab0
      "\<lparr>account_id = 9, masterId = 9\<rparr>" "\<lparr>wallet_id = 9, wallet_type = ''watch''\<rparr>"
      "Some \<lparr>fromInternal = False\<rparr>" True queueABC]
  by (simp add: collab0_def request0_def)

subsection \<open>Bulk clear\<close>

lemma removed_ids:
  assumes "distinct (map id' q)" and "r \<in> set q"
  shows "id' r \<in> id' ` set (filter P q) \<longleftrightarrow> P r"
proof
  assume "id' r \<in> id' ` set (filter P q)"
  then obtain r' where r': "r' \<in> set q" "P r'" "id' r' = id' r" by auto
  from assms(1) have "inj_on id' (set q)" by (simp add: distinct_map)
  with r' assms(2) have "r' = r" by (auto dest: inj_onD)
  with r' show "P r" by simp
next
  assume "P r"
  with assms(2) show "id' r \<in> id' ` set (filter P q)" by auto
qed

lemma clearRequests_removed:
  "(case t of None \<Rightarrow> consentRequests s
    | Some ty \<Rightarrow> filter (\<lambda>req. type req = ty) (consentRequests s)) =
   filter (matches t) (consentRequests s)"
  by (cases t) (simp_all add: matches_def [abs_def])

text \<open>
  C5. In a state whose queued requests have distinct ids (every state reached from a
  first start is one, \<open>distinct_ids_reachable\<close> below), \<open>clearRequests(type)\<close> leaves
  in the queue, and writes to the store, exactly the requests that are not of the given
  type (none when the type is omitted), in their order; it calls \<open>reject\<close> with the
  user-rejected error on each handle whose request it removed, and no other callback;
  and the handles of the other requests stay registered. On the queue A (transaction),
  B (message signature), C (transaction), clearing the transactions leaves B queued and
  pending and rejects the handles of A and C.
\<close>

theorem clearRequests_bulk_clear:
  assumes "distinct (map id' (consentRequests s))"
  shows "consentRequests (clearRequests t s) = filter (\<lambda>r. \<not> matches t r) (consentRequests s) \<and>
         store (clearRequests t s) = Some (filter (\<lambda>r. \<not> matches t r) (consentRequests s)) \<and>
         settled (clearRequests t s) =
           settled s @ map (\<lambda>k. (k, Rejected UserRejectedRequest))
             (filter (\<lambda>k. k \<in> id' ` set (filter (matches t) (consentRequests s))) (waits s)) \<and>
         waits (clearRequests t s) =
           filter (\<lambda>k. k \<notin> id' ` set (filter (matches t) (consentRequests s))) (waits s)"
proof -
  let ?q = "consentRequests s"
  let ?R = "map id' (filter (matches t) ?q)"
  have q': "filter (\<lambda>req. id' req \<notin> set ?R) ?q = filter (\<lambda>r. \<not> matches t r) ?q"
  proof (rule filter_cong [OF refl])
    fix r assume "r \<in> set ?q"
    from removed_ids [OF assms this, of "matches t"]
    show "(id' r \<notin> set ?R) = (\<not> matches t r)" by simp
  qed
  have 1: "consentRequests (clearRequests t s) = filter (\<lambda>r. \<not> matches t r) ?q"
    unfolding clearRequests_def clearRequests_removed Let_def
    using q' by simp
  have 2: "store (clearRequests t s) = Some (consentRequests (clearRequests t s))"
    unfolding clearRequests_def clearRequests_removed Let_def by simp
  have 3: "settled (clearRequests t s) =
           settled s @ map (\<lambda>k. (k, Rejected UserRejectedRequest))
             (filter (\<lambda>k. k \<in> id' ` set (filter (matches t) ?q)) (waits s))"
    unfolding clearRequests_def clearRequests_removed Let_def
    by (simp add: clearRequests_loop_settled)
  have 4: "waits (clearRequests t s) =
           filter (\<lambda>k. k \<notin> id' ` set (filter (matches t) ?q)) (waits s)"
    unfolding clearRequests_def clearRequests_removed Let_def
    by (auto simp: clearRequests_loop_waits intro: filter_cong)
  from 1 2 3 4 show ?thesis by simp
qed

theorem clearRequests_bulk_clear_witness:
  "distinct (map id' (consentRequests queueABC)) \<and>
   map (\<lambda>r. (id' r, type r)) (consentRequests queueABC) =
     [(0, TRANSACTION), (1, SIGN_MSG), (2, TRANSACTION)] \<and>
   map (\<lambda>r. (id' r, type r)) (consentRequests (clearRequests (Some TRANSACTION) queueABC)) =
     [(1, SIGN_MSG)] \<and>
   settled (clearRequests (Some TRANSACTION) queueABC) =
     [(0, Rejected UserRejectedRequest), (2, Rejected UserRejectedRequest)] \<and>
   waits (clearRequests (Some TRANSACTION) queueABC) = [1]"
  using clearRequests_bulk_clear [of queueABC "Some TRANSACTION"]
  by (simp add: eval_defs eval_defs2)

subsection \<open>Settlement removes the entry\<close>

lemma processRequest_try_disapprove:
  "\<not> approve \<Longrightarrow> fst (processRequest_try c req approve s) = Inl UserRejectedRequest"
  by (simp add: processRequest_try_def)

text \<open>
  Where the \<open>try\<close> block succeeds, or throws an object as every error of this service
  and of its \<open>assert\<close>s is, \<open>processRequest\<close> on a queued id returns normally, removes the
  first entry with that id and writes the store; a handle registered for the id is
  called once and unregistered, \<open>resolve\<close> with the result of the dispatch or \<open>reject\<close>
  with the error.
\<close>

lemma processRequest_settles:
  assumes "id' req \<in> id' ` set (consentRequests s)"
    and "\<forall>err. fst (processRequest_try c req approve s) = Inl err \<longrightarrow> isObject err"
  shows "fst (processRequest c req approve s) = Inr () \<and>
         (\<exists>i. i < length (consentRequests s) \<and> id' (consentRequests s ! i) = id' req \<and>
            id' req \<notin> id' ` set (take i (consentRequests s)) \<and>
            consentRequests (snd (processRequest c req approve s)) =
              take i (consentRequests s) @ drop (Suc i) (consentRequests s)) \<and>
         store (snd (processRequest c req approve s)) =
           Some (consentRequests (snd (processRequest c req approve s))) \<and>
         (distinct (map id' (consentRequests s)) \<longrightarrow>
            id' req \<notin> id' ` set (consentRequests (snd (processRequest c req approve s)))) \<and>
         id' req \<notin> set (waits (snd (processRequest c req approve s))) \<and>
         settled (snd (processRequest c req approve s)) =
           settled s @
           (if id' req \<in> set (waits s)
            then [(id' req, case fst (processRequest_try c req approve s) of
                              Inr v \<Rightarrow> Resolved v | Inl err \<Rightarrow> Rejected err)]
            else [])"
proof (cases rule: processRequest_cases [of c req approve s])
  case crash
  with assms(2) show ?thesis by simp
next
  case (post s1)
  let ?r = "fst (processRequest_try c req approve s)"
  from assms(1) post(2) have present: "id' req \<in> id' ` set (consentRequests s1)" by simp
  have ok: "\<not> in_throws (reject_arg ?r)"
    using assms(2) by (cases ?r) (simp_all add: in_throws_def reject_arg_def)
  have val: "settlement_of (resolve_arg ?r) (reject_arg ?r) =
      (case ?r of Inr v \<Rightarrow> Resolved v | Inl err \<Rightarrow> Rejected err)"
    using assms(2) isObject_truthy
    by (cases ?r) (simp_all add: settlement_of_def resolve_arg_def reject_arg_def)
  note p = processRequestPost_ok [OF present ok, of "resolve_arg ?r"]
  have 1: "fst (processRequest c req approve s) = Inr ()"
    using p(2) post(1) by simp
  have 2: "\<exists>i. i < length (consentRequests s) \<and> id' (consentRequests s ! i) = id' req \<and>
            id' req \<notin> id' ` set (take i (consentRequests s)) \<and>
            consentRequests (snd (processRequest c req approve s)) =
              take i (consentRequests s) @ drop (Suc i) (consentRequests s)"
    using p(1) post(1,2) by simp
  have 3: "store (snd (processRequest c req approve s)) =
           Some (consentRequests (snd (processRequest c req approve s)))"
    using p(3) post(1) by simp
  have 4: "id' req \<notin> id' ` set (consentRequests (snd (processRequest c req approve s)))"
    if "distinct (map id' (consentRequests s))"
    using processRequest_settled_gone [OF that 1] .
  have 5: "id' req \<notin> set (waits (snd (processRequest c req approve s)))"
    using p(4) post(1) by (simp add: waits_delete_def)
  have 6: "settled (snd (processRequest c req approve s)) =
           settled s @
           (if id' req \<in> set (waits s)
            then [(id' req, case ?r of Inr v \<Rightarrow> Resolved v | Inl err \<Rightarrow> Rejected err)]
            else [])"
    using p(5) post(1,3,5) val by simp
  from 1 2 3 4 5 6 show ?thesis by blast
qed

text \<open>
  C6 does not hold of the code for every failure. The request B (message signature,
  id 1) is queued with a handle, and it is approved. When the provider rejects the
  signature with the string \<open>device busy\<close>, \<open>processRequest\<close> fails with a \<open>TypeError\<close>:
  the handle of B is unregistered without being called, B stays in the queue and the
  store is not written. When the provider rejects with the empty string, the handle of
  B is resolved, not rejected.
\<close>

theorem processRequest_thrown_primitive:
  "id' (with_id (request0 SIGN_MSG 1) 1) \<in> id' ` set (consentRequests queueABC) \<and>
   fst (processRequest_try collab_string (with_id (request0 SIGN_MSG 1) 1) True queueABC) =
     Inl (ThrownPrimitive ''device busy'' True) \<and>
   processRequest collab_string (with_id (request0 SIGN_MSG 1) 1) True queueABC =
     (Inl TypeError, queueABC\<lparr>waits := [0, 2]\<rparr>) \<and>
   map id' (consentRequests (snd (processRequest collab_string (with_id (request0 SIGN_MSG 1) 1)
     True queueABC))) = [0, 1, 2] \<and>
   store (snd (processRequest collab_string (with_id (request0 SIGN_MSG 1) 1) True queueABC)) =
     store queueABC \<and>
   settled (snd (processRequest collab_string (with_id (request0 SIGN_MSG 1) 1) True queueABC)) =
     [] \<and>
   fst (processRequest_try collab_empty (with_id (request0 SIGN_MSG 1) 1) True queueABC) =
     Inl (ThrownPrimitive [] False) \<and>
   fst (processRequest collab_empty (with_id (request0 SIGN_MSG 1) 1) True queueABC) = Inr () \<and>
   settled (snd (processRequest collab_empty (with_id (request0 SIGN_MSG 1) 1) True queueABC)) =
     [(1, Resolved NoResponse)]"
  by (simp add: eval_defs eval_defs2)

subsection \<open>Failure notifications\<close>

lemma processRequestPost_notifications:
  "notifications (snd (processRequestPost req v e s)) = notifications s"
proof (cases "id' req \<in> id' ` set (consentRequests s)")
  case False
  from processRequestPost_missing [OF False] show ?thesis by simp
next
  case True
  show ?thesis
  proof (cases "in_throws e")
    case thr: True
    from processRequestPost_in_throws [OF True thr] show ?thesis by simp
  next
    case False
    from processRequestPost_ok(7) [OF True False] show ?thesis .
  qed
qed

text \<open>
  The notifications of \<open>processRequest\<close>, in every case: one, when the \<open>try\<close> block fails
  for a transaction with a thrown value that has a text, and the text does not contain
  \<open>User rejected the request\<close>; none otherwise.
\<close>

lemma processRequest_notifications:
  "notifications (snd (processRequest c req approve s)) =
     notifications s @
     (case fst (processRequest_try c req approve s) of
        Inr v \<Rightarrow> []
      | Inl err \<Rightarrow>
          if type req = TRANSACTION then
            (case toString err of
               None \<Rightarrow> []
             | Some txt \<Rightarrow>
                 if \<not> includes_str txt ''User rejected the request''
                 then [(''Failed transaction'',
                        ''Transaction encountered an error. ('' @ txt @ '')'')]
                 else [])
          else [])"
proof (cases "processRequest_try c req approve s")
  case (Pair r s0)
  have n: "notifications s0 = notifications s"
    using processRequest_try_fields(6) [of c req approve s] Pair by simp
  show ?thesis
  proof (cases r)
    case (Inr v)
    with Pair n show ?thesis
      by (simp add: processRequest_def processRequestPost_notifications)
  next
    case (Inl err)
    with Pair n show ?thesis
      by (auto simp: processRequest_def processRequest_catch_def
          processRequestPost_notifications split: option.splits)
  qed
qed

lemma processRequest_notification_iff:
  assumes "fst (processRequest_try c req approve s) = Inl err" and "toString err = Some txt"
  shows "notifications (snd (processRequest c req approve s)) \<noteq> notifications s \<longleftrightarrow>
           type req = TRANSACTION \<and> \<not> includes_str txt ''User rejected the request''"
  unfolding processRequest_notifications using assms by simp

text \<open>
  C8 does not hold of the code for every failure. The request A (transaction, id 0) is
  queued and approved, and the provider rejects the signature with \<open>undefined\<close>, which
  is no user rejection. \<open>err.toString()\<close> in the \<open>catch\<close> block then throws a
  \<open>TypeError\<close>: \<open>processRequest\<close> fails with it and nothing else happens, so no
  notification is shown.
\<close>

theorem processRequest_thrown_undefined:
  "type (with_id (request0 TRANSACTION 1) 0) = TRANSACTION \<and>
   fst (processRequest_try collab_undefined (with_id (request0 TRANSACTION 1) 0) True queueABC) =
     Inl ThrownNullish \<and>
   processRequest collab_undefined (with_id (request0 TRANSACTION 1) 0) True queueABC =
     (Inl TypeError, queueABC) \<and>
   notifications (snd (processRequest collab_undefined (with_id (request0 TRANSACTION 1) 0) True
     queueABC)) = [] \<and>
   settled (snd (processRequest collab_undefined (with_id (request0 TRANSACTION 1) 0) True
     queueABC)) = []"
  by (simp add: eval_defs eval_defs2)

lemma clearRequests_waits:
  "waits (clearRequests t s) =
     filter (\<lambda>k. k \<notin> id' ` set (filter (matches t) (consentRequests s))) (waits s)"
  unfolding clearRequests_def clearRequests_removed Let_def
  by (auto simp: clearRequests_loop_waits intro: filter_cong)

lemma clearRequests_settled:
  "settled (clearRequests t s) =
     settled s @ map (\<lambda>k. (k, Rejected UserRejectedRequest))
       (filter (\<lambda>k. k \<in> id' ` set (filter (matches t) (consentRequests s))) (waits s))"
  unfolding clearRequests_def clearRequests_removed Let_def
  by (simp add: clearRequests_loop_settled)

lemma clearRequests_queue:
  "consentRequests (clearRequests t s) =
     filter (\<lambda>r. id' r \<notin> id' ` set (filter (matches t) (consentRequests s))) (consentRequests s)"
  unfolding clearRequests_def clearRequests_removed Let_def by simp

lemma clearRequests_nextId [simp]: "nextId (clearRequests t s) = nextId s"
  unfolding clearRequests_def Let_def by simp

lemma clearRequests_store: "store (clearRequests t s) = Some (consentRequests (clearRequests t s))"
  unfolding clearRequests_def Let_def by simp

lemma handles_ok_constructor: "handles_ok (constructor s)"
  by (simp add: handles_ok_def constructor_def Let_def split: option.splits)

lemma handles_ok_requestConsent:
  assumes "handles_ok s"
  shows "handles_ok (snd (requestConsent c request ctx w s))"
proof (cases "admission c request")
  case (Inl err)
  with assms show ?thesis by (simp add: requestConsent_rejected)
next
  case (Inr u)
  from assms have fresh: "nextId s \<notin> set (waits s)" "nextId s \<notin> fst ` set (settled s)"
    by (auto simp: handles_ok_def)
  from assms fresh show ?thesis
    unfolding handles_ok_def requestConsent_admitted [OF Inr]
    by (auto simp: waits_set_def)
qed

lemma handles_ok_processRequest:
  assumes "handles_ok s"
  shows "handles_ok (snd (processRequest c req approve s))"
proof -
  let ?s' = "snd (processRequest c req approve s)"
  from processRequest_effect [of c req approve s]
  consider (same) "nextId ?s' = nextId s" "settled ?s' = settled s" "set (waits ?s') \<subseteq> set (waits s)"
      "distinct (waits s) \<longrightarrow> distinct (waits ?s')"
    | (called) x where "nextId ?s' = nextId s" "waits ?s' = waits_delete (id' req) (waits s)"
      "settled ?s' = settled s @ (if id' req \<in> set (waits s) then [(id' req, x)] else [])"
    by (auto simp: waits_delete_def)
  then show ?thesis
  proof cases
    case same
    with assms show ?thesis by (auto simp: handles_ok_def)
  next
    case called
    with assms show ?thesis by (auto simp: handles_ok_def waits_delete_def)
  qed
qed

lemma handles_ok_clearRequests:
  assumes "handles_ok s"
  shows "handles_ok (clearRequests t s)"
  using assms
  unfolding handles_ok_def clearRequests_waits clearRequests_settled
  by (auto simp: distinct_map_filter comp_def distinct_map inj_on_def)

lemma handles_ok_exec: "handles_ok s \<Longrightarrow> handles_ok (exec c s)"
  by (cases c)
     (simp_all add: handles_ok_requestConsent handles_ok_processRequest
        handles_ok_clearRequests handles_ok_constructor)

lemma handles_ok_run: "handles_ok s \<Longrightarrow> handles_ok (run cs s)"
  by (induction cs arbitrary: s) (simp_all add: handles_ok_exec)

lemma handles_ok_init: "handles_ok (init p)"
  by (simp add: init_def handles_ok_constructor)

lemma count_le_one: "distinct (map f xs) \<Longrightarrow> length (filter (\<lambda>e. f e = k) xs) \<le> Suc 0"
proof (induction xs)
  case Nil
  then show ?case by simp
next
  case (Cons x xs)
  show ?case
  proof (cases "f x = k")
    case True
    from Cons.prems have "f x \<notin> f ` set xs" by simp
    with True have "\<forall>e\<in>set xs. f e \<noteq> k" by (metis imageI)
    then have "filter (\<lambda>e. f e = k) xs = []" by (simp add: filter_empty_conv)
    with True show ?thesis by simp
  next
    case False
    with Cons show ?thesis by simp
  qed
qed

lemma newIds_subset:
  "set (consentRequests s') \<subseteq> set (consentRequests s) \<Longrightarrow> newIds s s' = []"
  by (auto simp: newIds_def filter_empty_conv)

lemma addRequest_split:
  "\<exists>k. consentRequests (addRequest req s) =
         take k (consentRequests s) @ req # drop k (consentRequests s)"
proof (cases "\<exists>r\<in>set (consentRequests s). type r = type req")
  case True
  from addRequest_same_type [OF True] obtain xs ys where
    "consentRequests s = xs @ ys" "consentRequests (addRequest req s) = xs @ req # ys"
    by blast
  then have "consentRequests (addRequest req s) =
      take (length xs) (consentRequests s) @ req # drop (length xs) (consentRequests s)"
    by simp
  then show ?thesis ..
next
  case False
  then have "consentRequests (addRequest req s) = consentRequests s @ [req]"
    by (simp add: addRequest_other_type)
  then have "consentRequests (addRequest req s) =
      take (length (consentRequests s)) (consentRequests s) @ req #
      drop (length (consentRequests s)) (consentRequests s)"
    by simp
  then show ?thesis ..
qed

lemma requestConsent_queue_split:
  assumes "admission c request = Inr u"
  shows "\<exists>k. consentRequests (snd (requestConsent c request ctx w s)) =
           take k (consentRequests s) @ with_id request (nextId s) # drop k (consentRequests s)"
  using addRequest_split [of "with_id request (nextId s)" "s\<lparr>nextId := nextId s + 1\<rparr>"]
  unfolding requestConsent_admitted(1) [OF assms] by simp

lemma with_id_id [simp]: "id' (with_id request n) = n"
  by (simp add: with_id_def)

lemma newIds_requestConsent:
  assumes "admission c request = Inr u" and "bounded s"
  shows "newIds s (snd (requestConsent c request ctx w s)) = [nextId s]"
proof -
  from requestConsent_queue_split [OF assms(1), of ctx w s] obtain k where
    k: "consentRequests (snd (requestConsent c request ctx w s)) =
          take k (consentRequests s) @ with_id request (nextId s) # drop k (consentRequests s)"
    by blast
  from assms(2) have new: "nextId s \<notin> id' ` set (consentRequests s)"
    by (auto simp: bounded_def)
  have old1: "filter (\<lambda>j. j \<notin> id' ` set (consentRequests s)) (map id' (take k (consentRequests s))) = []"
    by (auto simp: filter_empty_conv dest: in_set_takeD)
  have old2: "filter (\<lambda>j. j \<notin> id' ` set (consentRequests s)) (map id' (drop k (consentRequests s))) = []"
    by (auto simp: filter_empty_conv dest: in_set_dropD)
  show ?thesis
    unfolding newIds_def k using new old1 old2 by simp
qed

lemma bounded_requestConsent:
  assumes "bounded s"
  shows "bounded (snd (requestConsent c request ctx w s))"
proof (cases "admission c request")
  case (Inl err)
  with assms show ?thesis by (simp add: requestConsent_rejected)
next
  case (Inr u)
  from requestConsent_queue_split [OF Inr, of ctx w s] obtain k where
    k: "consentRequests (snd (requestConsent c request ctx w s)) =
          take k (consentRequests s) @ with_id request (nextId s) # drop k (consentRequests s)"
    by blast
  from assms show ?thesis
    unfolding bounded_def k requestConsent_admitted(2) [OF Inr]
    by (fastforce dest: in_set_takeD in_set_dropD)
qed

lemma clearRequests_queue_subset:
  "set (consentRequests (clearRequests t s)) \<subseteq> set (consentRequests s)"
  by (auto simp: clearRequests_queue)

lemma issued_consecutive:
  assumes "bounded s" and "Restart \<notin> set cs"
  shows "issued cs s = map (\<lambda>k. nextId s + int k) [0..<length (issued cs s)] \<and>
         nextId (run cs s) = nextId s + int (length (issued cs s)) \<and> bounded (run cs s)"
  using assms
proof (induction cs arbitrary: s)
  case Nil
  then show ?case by simp
next
  case (Cons c cs)
  from Cons.prems have nr: "Restart \<notin> set cs" "c \<noteq> Restart" by auto
  have step: "bounded (exec c s) \<and>
      ((newIds s (exec c s) = [] \<and> nextId (exec c s) = nextId s) \<or>
       (newIds s (exec c s) = [nextId s] \<and> nextId (exec c s) = nextId s + 1))"
  proof (cases c)
    case (RequestConsent cl request ctx w)
    show ?thesis
    proof (cases "admission cl request")
      case (Inl err)
      with RequestConsent Cons.prems(1) show ?thesis
        by (simp add: requestConsent_rejected newIds_subset)
    next
      case (Inr u)
      from newIds_requestConsent [OF Inr Cons.prems(1)] requestConsent_admitted(2) [OF Inr]
        bounded_requestConsent [OF Cons.prems(1)] RequestConsent
      show ?thesis by simp
    qed
  next
    case (ProcessRequest cl req a)
    from processRequest_queue_subset [of cl req a s] Cons.prems(1)
    have "bounded (snd (processRequest cl req a s))"
      by (auto simp: bounded_def)
    with ProcessRequest processRequest_queue_subset [of cl req a s] show ?thesis
      by (simp add: newIds_subset)
  next
    case (ClearRequests t)
    from clearRequests_queue_subset [of t s] Cons.prems(1)
    have "bounded (clearRequests t s)"
      by (auto simp: bounded_def)
    with ClearRequests clearRequests_queue_subset [of t s] show ?thesis
      by (simp add: newIds_subset)
  next
    case Restart
    with nr show ?thesis by simp
  qed
  then have b: "bounded (exec c s)" by simp
  note ih = Cons.IH [OF b nr(1)]
  from step show ?case
  proof (elim conjE disjE)
    assume a: "newIds s (exec c s) = []" "nextId (exec c s) = nextId s"
    with ih show ?thesis by simp
  next
    assume a: "newIds s (exec c s) = [nextId s]" "nextId (exec c s) = nextId s + 1"
    let ?n = "length (issued cs (exec c s))"
    have "map (\<lambda>k. nextId s + int k) [0..<Suc ?n] =
          nextId s # map (\<lambda>k. nextId s + 1 + int k) [0..<?n]"
      by (simp add: upt_conv_Cons map_Suc_upt [symmetric] del: upt_Suc)
    with ih a show ?thesis by simp
  qed
qed

lemma foldl_max_Max: "foldl max a ys = Max (set (a # ys))" for a :: int
proof -
  have "(\<lambda>x s. max s x) = (max :: int \<Rightarrow> int \<Rightarrow> int)"
    by (intro ext) (rule max.commute)
  then have "foldl max a ys = fold max ys a"
    by (simp add: foldl_conv_fold)
  also have "\<dots> = Max (set (a # ys))" by (rule Max.set_eq_fold [symmetric])
  finally show ?thesis .
qed

lemma reduce_max_Max: "xs \<noteq> [] \<Longrightarrow> reduce_max xs = Max (set xs)"
  using foldl_max_Max [of "hd xs" "tl xs"] by (simp add: reduce_max_def)

lemma init_fields:
  "consentRequests (init p) = (case p of None \<Rightarrow> [] | Some q \<Rightarrow> q)"
  "nextId (init p) = (case p of None \<Rightarrow> 0 | Some q \<Rightarrow> if q = [] then 0 else Max (id' ` set q) + 1)"
  by (auto simp: init_def browser_def constructor_def Let_def reduce_max_Max split: option.splits)

lemma bounded_init: "bounded (init p)"
proof -
  have "id' r < Max (id' ` set q) + 1" if "r \<in> set q" for r :: ConsentRequest and q
  proof -
    from that have "id' r \<le> Max (id' ` set q)" by simp
    then show ?thesis by simp
  qed
  then show ?thesis
    by (auto simp: bounded_def init_fields split: option.splits)
qed

lemma unheld_requestConsent:
  assumes "unheld k s"
  shows "unheld k (snd (requestConsent c request ctx w s))"
proof (cases "admission c request")
  case (Inl err)
  with assms show ?thesis by (simp add: requestConsent_rejected)
next
  case (Inr u)
  from assms show ?thesis
    unfolding unheld_def requestConsent_admitted [OF Inr]
    by (auto simp: waits_set_def)
qed

lemma unheld_processRequest:
  assumes "unheld k s"
  shows "unheld k (snd (processRequest c req a s))"
proof -
  let ?s' = "snd (processRequest c req a s)"
  from processRequest_effect [of c req a s]
  consider (same) "nextId ?s' = nextId s" "settled ?s' = settled s" "set (waits ?s') \<subseteq> set (waits s)"
    | (called) x where "nextId ?s' = nextId s" "waits ?s' = waits_delete (id' req) (waits s)"
      "settled ?s' = settled s @ (if id' req \<in> set (waits s) then [(id' req, x)] else [])"
    by (auto simp: waits_delete_def)
  then show ?thesis
  proof cases
    case same
    with assms show ?thesis by (auto simp: unheld_def)
  next
    case called
    with assms show ?thesis by (auto simp: unheld_def waits_delete_def)
  qed
qed

lemma unheld_clearRequests:
  assumes "unheld k s"
  shows "unheld k (clearRequests t s)"
  using assms unfolding unheld_def clearRequests_waits clearRequests_settled
  by auto

lemma unheld_run:
  "unheld k s \<Longrightarrow> Restart \<notin> set cs \<Longrightarrow> unheld k (run cs s)"
proof (induction cs arbitrary: s)
  case Nil
  then show ?case by simp
next
  case (Cons c cs)
  from Cons.prems have "unheld k (exec c s)"
    by (cases c) (simp_all add: unheld_requestConsent unheld_processRequest unheld_clearRequests)
  with Cons show ?case by simp
qed

subsection \<open>At-most-once settlement\<close>

text \<open>
  C1. In every state that the service reaches from its construction, by any calls of
  \<open>requestConsent\<close>, \<open>processRequest\<close> and \<open>clearRequests\<close> and any restarts, the
  callbacks of the handle registered for an id have been called at most once
  altogether. Where ids are distinct, a \<open>processRequest\<close> for an id that an earlier
  \<open>processRequest\<close> has settled, and a \<open>processRequest\<close> for an id that \<open>clearRequests\<close>
  removed, throw an error and call no callback: the not-found error, or the
  \<open>TypeError\<close> of their own \<open>catch\<close> block when they are for a transaction and their
  \<open>try\<close> block throws \<open>null\<close> or \<open>undefined\<close>.
\<close>

theorem settlement_at_most_once:
  "length (filter (\<lambda>e. fst e = k) (settled (run cs (init p)))) \<le> 1 \<and>
   (distinct (map id' (consentRequests s)) \<and> id' req \<in> id' ` set (consentRequests s) \<and>
    id' req2 = id' req \<and> fst (processRequest c req a s) = Inr () \<longrightarrow>
      fst (processRequest c2 req2 a2 (snd (processRequest c req a s))) =
        (if type req2 = TRANSACTION \<and>
            fst (processRequest_try c2 req2 a2 (snd (processRequest c req a s))) = Inl ThrownNullish
         then Inl TypeError else Inl (NotFound (id' req))) \<and>
      settled (snd (processRequest c2 req2 a2 (snd (processRequest c req a s)))) =
        settled (snd (processRequest c req a s))) \<and>
   (distinct (map id' (consentRequests s)) \<and> r \<in> set (consentRequests s) \<and> matches t r \<longrightarrow>
      fst (processRequest c r a (clearRequests t s)) =
        (if type r = TRANSACTION \<and>
            fst (processRequest_try c r a (clearRequests t s)) = Inl ThrownNullish
         then Inl TypeError else Inl (NotFound (id' r))) \<and>
      settled (snd (processRequest c r a (clearRequests t s))) = settled (clearRequests t s))"
proof -
  have "handles_ok (run cs (init p))"
    by (rule handles_ok_run [OF handles_ok_init])
  then have "distinct (map fst (settled (run cs (init p))))"
    by (simp add: handles_ok_def)
  from count_le_one [OF this, of k]
  have 1: "length (filter (\<lambda>e. fst e = k) (settled (run cs (init p)))) \<le> 1" by simp
  have 2: "fst (processRequest c2 req2 a2 (snd (processRequest c req a s))) =
        (if type req2 = TRANSACTION \<and>
            fst (processRequest_try c2 req2 a2 (snd (processRequest c req a s))) = Inl ThrownNullish
         then Inl TypeError else Inl (NotFound (id' req))) \<and>
      settled (snd (processRequest c2 req2 a2 (snd (processRequest c req a s)))) =
        settled (snd (processRequest c req a s))"
    if d: "distinct (map id' (consentRequests s))" and e: "id' req2 = id' req"
      and ok: "fst (processRequest c req a s) = Inr ()"
  proof -
    from processRequest_settled_gone [OF d ok] e
    have "id' req2 \<notin> id' ` set (consentRequests (snd (processRequest c req a s)))" by simp
    from processRequest_absent(1,2) [OF this, of c2 a2] e show ?thesis by simp
  qed
  have 3: "fst (processRequest c r a (clearRequests t s)) =
        (if type r = TRANSACTION \<and>
            fst (processRequest_try c r a (clearRequests t s)) = Inl ThrownNullish
         then Inl TypeError else Inl (NotFound (id' r))) \<and>
      settled (snd (processRequest c r a (clearRequests t s))) = settled (clearRequests t s)"
    if d: "distinct (map id' (consentRequests s))" and r: "r \<in> set (consentRequests s)"
      and m: "matches t r"
  proof -
    from r m have "id' r \<in> id' ` set (filter (matches t) (consentRequests s))" by auto
    then have "id' r \<notin> id' ` set (consentRequests (clearRequests t s))"
      by (auto simp: clearRequests_queue)
    from processRequest_absent(1,2) [OF this, of c a] show ?thesis by simp
  qed
  from 1 2 3 show ?thesis by blast
qed

theorem settlement_at_most_once_witness:
  "settled (run [RequestConsent collab0 (request0 TRANSACTION 1) None True,
                 ProcessRequest collab0 (with_id (request0 TRANSACTION 1) 0) True,
                 ProcessRequest collab0 (with_id (request0 TRANSACTION 1) 0) False,
                 ClearRequests None] (init None)) = [(0, Resolved (Response ''0xhash''))] \<and>
   length (filter (\<lambda>e. fst e = 0)
     (settled (run [RequestConsent collab0 (request0 TRANSACTION 1) None True,
                 ProcessRequest collab0 (with_id (request0 TRANSACTION 1) 0) True,
                 ProcessRequest collab0 (with_id (request0 TRANSACTION 1) 0) False,
                 ClearRequests None] (init None)))) \<le> 1 \<and>
   fst (processRequest collab0 (with_id (request0 TRANSACTION 1) 0) True queueABC) = Inr () \<and>
   fst (processRequest collab0 (with_id (request0 TRANSACTION 1) 0) False
         (snd (processRequest collab0 (with_id (request0 TRANSACTION 1) 0) True queueABC))) =
     Inl (NotFound 0) \<and>
   fst (processRequest collab0 (with_id (request0 TRANSACTION 1) 0) True
         (clearRequests (Some TRANSACTION) queueABC)) = Inl (NotFound 0)"
  using settlement_at_most_once [where k = 0
      and cs = "[RequestConsent collab0 (request0 TRANSACTION 1) None True,
                 ProcessRequest collab0 (with_id (request0 TRANSACTION 1) 0) True,
                 ProcessRequest collab0 (with_id (request0 TRANSACTION 1) 0) False,
                 ClearRequests None]"
      and p = None and s = queueABC and req = "with_id (request0 TRANSACTION 1) 0"
      and ?req2.0 = "with_id (request0 TRANSACTION 1) 0" and c = collab0 and a = True
      and ?c2.0 = collab0 and ?a2.0 = False
      and r = "with_id (request0 TRANSACTION 1) 0" and t = "Some TRANSACTION"]
  by (simp add: eval_defs eval_defs2)

subsection \<open>Requests that are not awaited\<close>

text \<open>
  C9. A request admitted with \<open>waitCompleted = false\<close> gets the id \<open>nextId\<close>, is
  queued and written to the store; no handle is registered, no callback is called and
  the call returns \<open>undefined\<close>. Whatever calls follow before a restart, no callback is
  ever called for that id and no handle is ever registered for it.
\<close>

theorem requestConsent_without_waiting:
  assumes "admission c request = Inr ()"
  shows "fst (requestConsent c request ctx False (run cs0 (init p))) = Inr Undefined \<and>
         with_id request (nextId (run cs0 (init p))) \<in>
           set (consentRequests (snd (requestConsent c request ctx False (run cs0 (init p))))) \<and>
         nextId (snd (requestConsent c request ctx False (run cs0 (init p)))) =
           nextId (run cs0 (init p)) + 1 \<and>
         store (snd (requestConsent c request ctx False (run cs0 (init p)))) =
           Some (consentRequests (snd (requestConsent c request ctx False (run cs0 (init p))))) \<and>
         waits (snd (requestConsent c request ctx False (run cs0 (init p)))) =
           waits (run cs0 (init p)) \<and>
         nextId (run cs0 (init p)) \<notin>
           set (waits (snd (requestConsent c request ctx False (run cs0 (init p))))) \<and>
         settled (snd (requestConsent c request ctx False (run cs0 (init p)))) =
           settled (run cs0 (init p)) \<and>
         (Restart \<notin> set cs1 \<longrightarrow>
            nextId (run cs0 (init p)) \<notin>
              fst ` set (settled (run cs1 (snd (requestConsent c request ctx False (run cs0 (init p)))))) \<and>
            nextId (run cs0 (init p)) \<notin>
              set (waits (run cs1 (snd (requestConsent c request ctx False (run cs0 (init p)))))))"
proof -
  let ?s = "run cs0 (init p)"
  let ?s' = "snd (requestConsent c request ctx False ?s)"
  have h: "handles_ok ?s" by (rule handles_ok_run [OF handles_ok_init])
  note adm = requestConsent_admitted [OF assms, of ctx False ?s]
  from requestConsent_queue_split [OF assms, of ctx False ?s]
  have inq: "with_id request (nextId ?s) \<in> set (consentRequests ?s')" by auto
  from h have fresh: "nextId ?s \<notin> set (waits ?s)" "nextId ?s \<notin> fst ` set (settled ?s)"
    by (auto simp: handles_ok_def)
  have u: "unheld (nextId ?s) ?s'"
    unfolding unheld_def adm using fresh by simp
  have later: "nextId ?s \<notin> fst ` set (settled (run cs1 ?s')) \<and>
               nextId ?s \<notin> set (waits (run cs1 ?s'))" if "Restart \<notin> set cs1"
    using unheld_run [OF u that] by (simp add: unheld_def)
  from adm inq fresh later show ?thesis by simp
qed

theorem requestConsent_without_waiting_witness:
  "admission collab0 (request0 SIGN_MSG 1) = Inr () \<and>
   fst (requestConsent collab0 (request0 SIGN_MSG 1) None False (run [] (init None))) = Inr Undefined \<and>
   map id' (consentRequests (snd (requestConsent collab0 (request0 SIGN_MSG 1) None False (run [] (init None))))) = [0] \<and>
   waits (snd (requestConsent collab0 (request0 SIGN_MSG 1) None False (run [] (init None)))) = [] \<and>
   Restart \<notin> set [ProcessRequest collab0 (with_id (request0 SIGN_MSG 1) 0) True] \<and>
   settled (run [ProcessRequest collab0 (with_id (request0 SIGN_MSG 1) 0) True]
     (snd (requestConsent collab0 (request0 SIGN_MSG 1) None False (run [] (init None))))) = [] \<and>
   consentRequests (run [ProcessRequest collab0 (with_id (request0 SIGN_MSG 1) 0) True]
     (snd (requestConsent collab0 (request0 SIGN_MSG 1) None False (run [] (init None))))) = []"
  using requestConsent_without_waiting [of collab0 "request0 SIGN_MSG 1" None "[]" None
      "[ProcessRequest collab0 (with_id (request0 SIGN_MSG 1) 0) True]"]
  by (simp add: eval_defs eval_defs2)

lemma sorted_consecutive: "sorted_wrt (<) (map (\<lambda>k. n + int k) [0..<m])"
proof -
  have "sorted_wrt (\<lambda>x y. n + int x < n + int y) [0..<m]"
    by (rule sorted_wrt_mono_rel [of _ "(<)"]) simp_all
  then show ?thesis by (simp add: sorted_wrt_map)
qed

subsection \<open>Ids are consecutive\<close>

text \<open>
  C10. A call of \<open>requestConsent\<close> that the admission check rejects leaves the state,
  and so \<open>nextId\<close>, as it was. In a history without a restart the ids issued are
  \<open>nextId\<close>, \<open>nextId + 1\<close>, ... of the constructed service, without a gap, and the
  counter has advanced by exactly the number of ids issued.
\<close>

theorem admission_failure_keeps_nextId:
  "(admission c request = Inl err \<longrightarrow>
      requestConsent c request ctx w s = (Inl err, s) \<and>
      nextId (snd (requestConsent c request ctx w s)) = nextId s) \<and>
   (Restart \<notin> set cs \<longrightarrow>
      issued cs (init p) = map (\<lambda>k. nextId (init p) + int k) [0..<length (issued cs (init p))] \<and>
      nextId (run cs (init p)) = nextId (init p) + int (length (issued cs (init p))))"
  using requestConsent_rejected [of c request err ctx w s]
    issued_consecutive [OF bounded_init, of cs p]
  by simp

theorem admission_failure_keeps_nextId_witness:
  "admission collab0 (request0 TRANSACTION 9) = Inl UserRejectedRequest \<and>
   nextId (snd (requestConsent collab0 (request0 TRANSACTION 9) None True queueABC)) = 3 \<and>
   Restart \<notin> set [RequestConsent collab0 (request0 TRANSACTION 1) None True,
                    RequestConsent collab0 (request0 TRANSACTION 9) None True,
                    RequestConsent collab0 (request0 SIGN_MSG 1) None False] \<and>
   issued [RequestConsent collab0 (request0 TRANSACTION 1) None True,
           RequestConsent collab0 (request0 TRANSACTION 9) None True,
           RequestConsent collab0 (request0 SIGN_MSG 1) None False] (init None) = [0, 1]"
  using admission_failure_keeps_nextId [of collab0 "request0 TRANSACTION 9" UserRejectedRequest
      None True queueABC
      "[RequestConsent collab0 (request0 TRANSACTION 1) None True,
        RequestConsent collab0 (request0 TRANSACTION 9) None True,
        RequestConsent collab0 (request0 SIGN_MSG 1) None False]" None]
  by (simp add: eval_defs eval_defs2 newIds_def)

subsection \<open>Ids across a restart\<close>

text \<open>
  Ids are not unique across a restart. Requests 0 and 1 are admitted and request 1 is
  approved, which leaves request 0 alone in the store; after the restart the counter
  is 1 again, and the next request gets the id 1 a second time.
\<close>

theorem id_reused_after_restart:
  "map id' (consentRequests (run (take 3 history_reuse) (init None))) = [0] \<and>
   issued history_reuse (init None) = [0, 1, 1]"
  by (simp add: history_reuse_def eval_defs eval_defs2 newIds_def reduce_max_def)

text \<open>
  C2, as amended. The constructor sets \<open>nextId\<close> to 0 when the store holds no list or
  an empty one, and otherwise restores the stored list and sets \<open>nextId\<close> to its largest
  id plus one. Until the next restart the ids issued are strictly increasing and larger
  than every restored id; after restoring the ids 5, 6, 7 the next request gets 8.
\<close>

theorem ids_increase_until_restart:
  "nextId (init None) = 0 \<and> nextId (init (Some [])) = 0 \<and>
   (q \<noteq> [] \<longrightarrow> nextId (init (Some q)) = Max (id' ` set q) + 1) \<and>
   consentRequests (init (Some q)) = q \<and>
   (Restart \<notin> set cs \<longrightarrow>
      sorted_wrt (<) (issued cs (init p)) \<and>
      (\<forall>k\<in>set (issued cs (init p)). \<forall>r\<in>set (consentRequests (init p)). id' r < k)) \<and>
   (q \<noteq> [] \<and> admission c request = Inr () \<longrightarrow>
      issued [RequestConsent c request ctx w] (init (Some q)) = [Max (id' ` set q) + 1])"
proof -
  have 1: "nextId (init None) = 0" "nextId (init (Some [])) = 0"
    "q \<noteq> [] \<longrightarrow> nextId (init (Some q)) = Max (id' ` set q) + 1"
    "consentRequests (init (Some q)) = q"
    by (simp_all add: init_fields)
  have 2: "sorted_wrt (<) (issued cs (init p)) \<and>
      (\<forall>k\<in>set (issued cs (init p)). \<forall>r\<in>set (consentRequests (init p)). id' r < k)"
    if nr: "Restart \<notin> set cs"
  proof -
    from issued_consecutive [OF bounded_init nr, of p]
    have eq: "issued cs (init p) =
        map (\<lambda>k. nextId (init p) + int k) [0..<length (issued cs (init p))]" by simp
    have s: "sorted_wrt (<) (issued cs (init p))"
      by (subst eq) (rule sorted_consecutive)
    have "id' r < k" if "k \<in> set (issued cs (init p))" "r \<in> set (consentRequests (init p))" for k r
    proof -
      from that(1) have "k \<in> set (map (\<lambda>k. nextId (init p) + int k) [0..<length (issued cs (init p))])"
        using eq by simp
      then have "nextId (init p) \<le> k" by auto
      moreover from bounded_init [of p] that(2) have "id' r < nextId (init p)"
        by (simp add: bounded_def)
      ultimately show ?thesis by simp
    qed
    with s show ?thesis by blast
  qed
  have 3: "issued [RequestConsent c request ctx w] (init (Some q)) = [Max (id' ` set q) + 1]"
    if "q \<noteq> []" "admission c request = Inr ()"
    using newIds_requestConsent [OF that(2) bounded_init [of "Some q"], of ctx w] that(1)
    by (simp add: init_fields)
  from 1 2 3 show ?thesis by blast
qed

theorem ids_increase_until_restart_witness:
  "restored567 \<noteq> [] \<and> map id' restored567 = [5, 6, 7] \<and>
   admission collab0 (request0 SIGN_MSG 1) = Inr () \<and>
   nextId (init (Some restored567)) = 8 \<and>
   issued [RequestConsent collab0 (request0 SIGN_MSG 1) None True] (init (Some restored567)) = [8]"
  using ids_increase_until_restart [of restored567 "[]" None collab0 "request0 SIGN_MSG 1" None True]
  by (simp add: restored567_def eval_defs newIds_def reduce_max_def)

lemma find_append_new:
  "find P xs = None \<Longrightarrow> P x \<Longrightarrow> find P (xs @ [x]) = Some x"
  by (induction xs) (auto split: if_splits)

lemma find_map_same:
  "(\<And>x. P (f x) = P x) \<Longrightarrow> find P (map f xs) = map_option f (find P xs)"
  by (induction xs) auto

lemma getToken_addToken:
  "getToken ts acc tok = None \<Longrightarrow>
   \<exists>e. getToken (addToken ts acc tok i) acc tok = Some e \<and> visible e = SHOW"
  by (simp add: getToken_def addToken_def find_append_new)

lemma getToken_setTokenVisibility:
  assumes "getToken ts acc tok = Some e"
  shows "getToken (setTokenVisibility ts (token_id e) SHOW) acc tok = Some (e\<lparr>visible := SHOW\<rparr>)"
proof -
  let ?f = "\<lambda>x. if token_id x = token_id e then x\<lparr>visible := SHOW\<rparr> else x"
  let ?P = "\<lambda>x. token_account x = acc \<and> token_address x = tok"
  have "?P (?f x) = ?P x" for x :: IToken by simp
  then have "find ?P (map ?f ts) = map_option ?f (find ?P ts)"
    by (rule find_map_same)
  with assms show ?thesis
    by (simp add: getToken_def setTokenVisibility_def)
qed

lemma watchAsset_is_dispatch:
  assumes "type req = WATCH_ASSET" and "resolveRequest c req = Inr r"
  shows "processRequestIntermediate c req sg h s = dispatchWatchAsset req r s"
  using assms by (simp add: processRequestIntermediate_def)

subsection \<open>Watching an asset\<close>

text \<open>
  C7. For an approved request of type \<open>WATCH_ASSET\<close> whose account resolves, the
  dispatch fails with the invalid-request error, changing nothing, when the token
  service has an entry for the account and token that is shown; it sets the entry to
  shown, adding none, when there is one that is not shown; and it adds one entry when
  there is none, after which the same dispatch fails with the invalid-request error and
  adds no second entry.
\<close>

theorem watchAsset_dispatch:
  assumes "type req = WATCH_ASSET" and "resolveRequest c req = Inr r" and "account r = Some acc"
  shows "(\<forall>e. getToken (tokens s) acc (token (payload req)) = Some e \<and> visible e = SHOW \<longrightarrow>
            processRequestIntermediate c req sg h s =
              (Inl (InvalidRequest ''Token already exists''), s)) \<and>
         (\<forall>e. getToken (tokens s) acc (token (payload req)) = Some e \<and> visible e \<noteq> SHOW \<longrightarrow>
            fst (processRequestIntermediate c req sg h s) = Inr NoResponse \<and>
            tokens (snd (processRequestIntermediate c req sg h s)) =
              setTokenVisibility (tokens s) (token_id e) SHOW \<and>
            getToken (tokens (snd (processRequestIntermediate c req sg h s))) acc
              (token (payload req)) = Some (e\<lparr>visible := SHOW\<rparr>) \<and>
            length (tokens (snd (processRequestIntermediate c req sg h s))) = length (tokens s)) \<and>
         (getToken (tokens s) acc (token (payload req)) = None \<longrightarrow>
            fst (processRequestIntermediate c req sg h s) = Inr NoResponse \<and>
            tokens (snd (processRequestIntermediate c req sg h s)) =
              addToken (tokens s) acc (token (payload req))
                (info (payload req), balance (payload req)) \<and>
            length (tokens (snd (processRequestIntermediate c req sg h s))) =
              length (tokens s) + 1 \<and>
            processRequestIntermediate c req sg2 h2 (snd (processRequestIntermediate c req sg h s)) =
              (Inl (InvalidRequest ''Token already exists''),
               snd (processRequestIntermediate c req sg h s)))"
proof -
  note d = watchAsset_is_dispatch [OF assms(1,2)]
  let ?tok = "token (payload req)"
  have shown: "processRequestIntermediate c req sg h s =
      (Inl (InvalidRequest ''Token already exists''), s)"
    if "getToken (tokens s) acc ?tok = Some e" "visible e = SHOW" for e s sg h
    using that assms(3) by (simp add: d dispatchWatchAsset_def)
  have hidden: "fst (processRequestIntermediate c req sg h s) = Inr NoResponse \<and>
      tokens (snd (processRequestIntermediate c req sg h s)) =
        setTokenVisibility (tokens s) (token_id e) SHOW \<and>
      getToken (tokens (snd (processRequestIntermediate c req sg h s))) acc ?tok =
        Some (e\<lparr>visible := SHOW\<rparr>) \<and>
      length (tokens (snd (processRequestIntermediate c req sg h s))) = length (tokens s)"
    if e: "getToken (tokens s) acc ?tok = Some e" "visible e \<noteq> SHOW" for e
  proof -
    from e assms(3) have r: "processRequestIntermediate c req sg h s =
        (Inr NoResponse, s\<lparr>tokens := setTokenVisibility (tokens s) (token_id e) SHOW\<rparr>)"
      by (simp add: d dispatchWatchAsset_def)
    from getToken_setTokenVisibility [OF e(1)] show ?thesis
      by (simp add: r) (simp add: setTokenVisibility_def)
  qed
  have absent: "fst (processRequestIntermediate c req sg h s) = Inr NoResponse \<and>
      tokens (snd (processRequestIntermediate c req sg h s)) =
        addToken (tokens s) acc ?tok (info (payload req), balance (payload req)) \<and>
      length (tokens (snd (processRequestIntermediate c req sg h s))) = length (tokens s) + 1 \<and>
      processRequestIntermediate c req sg2 h2 (snd (processRequestIntermediate c req sg h s)) =
        (Inl (InvalidRequest ''Token already exists''),
         snd (processRequestIntermediate c req sg h s))"
    if n: "getToken (tokens s) acc ?tok = None"
  proof -
    let ?s' = "s\<lparr>tokens := addToken (tokens s) acc ?tok (info (payload req), balance (payload req))\<rparr>"
    from n assms(3) have r: "processRequestIntermediate c req sg h s = (Inr NoResponse, ?s')"
      by (simp add: d dispatchWatchAsset_def)
    from getToken_addToken [OF n] obtain e where
      e: "getToken (tokens ?s') acc ?tok = Some e" "visible e = SHOW"
      by auto
    from shown [OF e] have "processRequestIntermediate c req sg2 h2 ?s' =
        (Inl (InvalidRequest ''Token already exists''), ?s')" .
    then show ?thesis
      by (simp add: r) (simp add: addToken_def)
  qed
  from shown hidden absent show ?thesis by blast
qed

theorem watchAsset_dispatch_witness:
  "type watchRequest = WATCH_ASSET \<and>
   resolveRequest collab0 watchRequest =
     Inr \<lparr>network = Some \<lparr>network_id = 1, kind = EVM\<rparr>, provider = Some 0,
          accounts = Some [\<lparr>account_id = 1, masterId = 1\<rparr>],
          account = Some \<lparr>account_id = 1, masterId = 1\<rparr>\<rparr> \<and>
   getToken (tokens queueABC) \<lparr>account_id = 1, masterId = 1\<rparr> (token (payload watchRequest)) = None \<and>
   fst (processRequestIntermediate collab0 watchRequest None None queueABC) = Inr NoResponse \<and>
   map (\<lambda>e. (token_address e, visible e))
     (tokens (snd (processRequestIntermediate collab0 watchRequest None None queueABC))) =
     [(Some ''0xT0KEN'', SHOW)] \<and>
   fst (processRequestIntermediate collab0 watchRequest None None
     (snd (processRequestIntermediate collab0 watchRequest None None queueABC))) =
     Inl (InvalidRequest ''Token already exists'') \<and>
   length (tokens (snd (processRequestIntermediate collab0 watchRequest None None
     (snd (processRequestIntermediate collab0 watchRequest None None queueABC))))) = 1 \<and>
   getToken (tokens (queueABC\<lparr>tokens := [hiddenToken]\<rparr>)) \<lparr>account_id = 1, masterId = 1\<rparr>
     (token (payload watchRequest)) = Some hiddenToken \<and>
   visible hiddenToken \<noteq> SHOW \<and>
   map (\<lambda>e. (token_address e, visible e))
     (tokens (snd (processRequestIntermediate collab0 watchRequest None None
        (queueABC\<lparr>tokens := [hiddenToken]\<rparr>)))) = [(Some ''0xT0KEN'', SHOW)]"
  using watchAsset_dispatch [of watchRequest collab0
      "\<lparr>network = Some \<lparr>network_id = 1, kind = EVM\<rparr>, provider = Some 0,
          accounts = Some [\<lparr>account_id = 1, masterId = 1\<rparr>],
          account = Some \<lparr>account_id = 1, masterId = 1\<rparr>\<rparr>"
      "\<lparr>account_id = 1, masterId = 1\<rparr>" queueABC None None None None]
    watchAsset_dispatch [of watchRequest collab0
      "\<lparr>network = Some \<lparr>network_id = 1, kind = EVM\<rparr>, provider = Some 0,
          accounts = Some [\<lparr>account_id = 1, masterId = 1\<rparr>],
          account = Some \<lparr>account_id = 1, masterId = 1\<rparr>\<rparr>"
      "\<lparr>account_id = 1, masterId = 1\<rparr>" "queueABC\<lparr>tokens := [hiddenToken]\<rparr>" None None None None]
  by (simp add: watchRequest_def hiddenToken_def eval_defs eval_defs2 dispatchWatchAsset_def
      getToken_def addToken_def setTokenVisibility_def)

subsection \<open>Queued ids are distinct\<close>

text \<open>From a first start, whatever is called and however often the service worker
  restarts, no two queued requests share an id.\<close>

lemma distinct_insert_at:
  assumes "distinct (map f xs)" and "f x \<notin> f ` set xs"
  shows "distinct (map f (take k xs @ x # drop k xs))"
proof -
  have "map f xs = map f (take k xs) @ map f (drop k xs)"
    by (simp flip: map_append)
  with assms(1) have "distinct (map f (take k xs) @ map f (drop k xs))"
    by metis
  then show ?thesis using assms(2)
    by (auto dest: in_set_takeD in_set_dropD)
qed

lemma queue_ok_constructor:
  assumes "store s = None \<or> (\<exists>q. store s = Some q \<and> distinct (map id' q))"
  shows "queue_ok (constructor s)"
proof -
  have b: "id' r \<le> reduce_max (map id' q)" if "r \<in> set q" for r :: ConsentRequest and q
  proof -
    from that have "q \<noteq> []" by auto
    then have "reduce_max (map id' q) = Max (id' ` set q)"
      using reduce_max_Max [of "map id' q"] by simp
    moreover from that have "id' r \<le> Max (id' ` set q)" by simp
    ultimately show ?thesis by simp
  qed
  from assms show ?thesis
    by (auto simp: queue_ok_def bounded_def constructor_def Let_def b split: option.splits)
qed

lemma queue_ok_requestConsent:
  assumes "queue_ok s"
  shows "queue_ok (snd (requestConsent c request ctx w s))"
proof (cases "admission c request")
  case (Inl err)
  with assms show ?thesis by (simp add: requestConsent_rejected)
next
  case (Inr u)
  from requestConsent_queue_split [OF Inr, of ctx w s] obtain k where
    k: "consentRequests (snd (requestConsent c request ctx w s)) =
          take k (consentRequests s) @ with_id request (nextId s) # drop k (consentRequests s)"
    by blast
  from assms have b: "bounded s" and d: "distinct (map id' (consentRequests s))"
    by (simp_all add: queue_ok_def)
  from b have new: "nextId s \<notin> id' ` set (consentRequests s)"
    by (auto simp: bounded_def)
  from new have "id' (with_id request (nextId s)) \<notin> id' ` set (consentRequests s)"
    by simp
  from distinct_insert_at [OF d this, of k]
  have "distinct (map id' (take k (consentRequests s) @
      with_id request (nextId s) # drop k (consentRequests s)))" .
  with bounded_requestConsent [OF b, of c request ctx w] requestConsent_admitted(3) [OF Inr, of ctx w s]
  show ?thesis by (simp add: queue_ok_def k)
qed

lemma distinct_remove_nth:
  assumes "distinct ys"
  shows "distinct (take i ys @ drop (Suc i) ys)"
  using assms set_take_disj_set_drop_if_distinct [of ys i "Suc i"] by simp

lemma queue_ok_processRequest:
  assumes "queue_ok s"
  shows "queue_ok (snd (processRequest c req a s))"
proof -
  let ?s' = "snd (processRequest c req a s)"
  from processRequest_effect [of c req a s]
  consider (same) "nextId ?s' = nextId s" "consentRequests ?s' = consentRequests s"
      "store ?s' = store s"
    | (removed) i where "nextId ?s' = nextId s"
      "consentRequests ?s' = take i (consentRequests s) @ drop (Suc i) (consentRequests s)"
      "store ?s' = Some (consentRequests ?s')"
    by blast
  then show ?thesis
  proof cases
    case same
    with assms show ?thesis by (simp add: queue_ok_def bounded_def)
  next
    case removed
    from assms have d: "distinct (map id' (consentRequests s))" by (simp add: queue_ok_def)
    from distinct_remove_nth [OF d, of i]
    have "distinct (map id' (take i (consentRequests s) @ drop (Suc i) (consentRequests s)))"
      by (simp add: take_map drop_map)
    with assms removed show ?thesis
      by (auto simp: queue_ok_def bounded_def dest: in_set_takeD in_set_dropD)
  qed
qed

lemma queue_ok_clearRequests:
  assumes "queue_ok s"
  shows "queue_ok (clearRequests t s)"
  using assms clearRequests_store [of t s]
  by (auto simp: queue_ok_def bounded_def clearRequests_queue distinct_map_filter)

lemma queue_ok_exec: "queue_ok s \<Longrightarrow> queue_ok (exec c s)"
proof (cases c)
  case Restart
  assume "queue_ok s"
  then have "\<exists>q. store s = Some q \<and> distinct (map id' q)" by (simp add: queue_ok_def)
  then show ?thesis using Restart by (simp add: queue_ok_constructor)
qed (simp_all add: queue_ok_requestConsent queue_ok_processRequest queue_ok_clearRequests)

lemma queue_ok_run: "queue_ok s \<Longrightarrow> queue_ok (run cs s)"
  by (induction cs arbitrary: s) (simp_all add: queue_ok_exec)

lemma distinct_ids_reachable: "distinct (map id' (consentRequests (run cs (init None))))"
proof -
  have "queue_ok (init None)"
    unfolding init_def by (rule queue_ok_constructor) (simp add: browser_def)
  from queue_ok_run [OF this, of cs] show ?thesis by (simp add: queue_ok_def)
qed

end
